theory Spec2Isabelle
  imports Main "HOL-Library.Char_ord" "HOL-Library.List_Lexorder" "HOL-Library.Log_Nat"
    "HOL-Library.Multiset"
begin

section \<open>The platform: calendar, Date objects, date strings, numbers\<close>

text \<open>
  The script relies on the JavaScript \<^verbatim>\<open>Date\<close> object, on string comparison and on
  double-precision numbers.  This section models the part of the platform the script uses.

  \<^item> A \<^verbatim>\<open>Date\<close> is its time value: milliseconds since 1970-01-01T00:00:00Z, an \<open>int\<close>.
    An invalid Date (time value NaN) is \<open>None\<close> where the script can produce one.
  \<^item> Strings are \<open>string\<close>; \<^verbatim>\<open><\<close>, \<^verbatim>\<open><=\<close> on strings is the lexicographic order on
    character codes, which is the order of \<open>HOL-Library.List_Lexorder\<close> over
    \<open>HOL-Library.Char_ord\<close>.
  \<^item> The calendar is the proleptic Gregorian calendar, as in ECMAScript.
\<close>

definition MS_PER_DAY :: int where
  "MS_PER_DAY = 1000 * 60 * 60 * 24"

definition is_leap :: "int \<Rightarrow> bool" where
  "is_leap y \<longleftrightarrow> y mod 4 = 0 \<and> (y mod 100 \<noteq> 0 \<or> y mod 400 = 0)"

definition days_in_month :: "int \<Rightarrow> int \<Rightarrow> int" where
  "days_in_month y m =
     (if m = 2 then (if is_leap y then 29 else 28)
      else if m = 4 \<or> m = 6 \<or> m = 9 \<or> m = 11 then 30 else 31)"

text \<open>Days from 0000-01-01 to the first of January of year \<open>y\<close> (year 0 is a leap year).\<close>

definition days_before_year :: "int \<Rightarrow> int" where
  "days_before_year y = 365 * y + (y + 3) div 4 - (y + 99) div 100 + (y + 399) div 400"

text \<open>Days from the first of January to the first of month \<open>m\<close> of year \<open>y\<close>.\<close>

definition days_before_month :: "int \<Rightarrow> int \<Rightarrow> int" where
  "days_before_month y m =
     (if m \<le> 1 then 0 else if m = 2 then 31
      else (if is_leap y then 1 else 0) +
        (if m = 3 then 59 else if m = 4 then 90 else if m = 5 then 120
         else if m = 6 then 151 else if m = 7 then 181 else if m = 8 then 212
         else if m = 9 then 243 else if m = 10 then 273 else if m = 11 then 304
         else if m = 12 then 334 else 365))"

type_synonym civil = "int \<times> int \<times> int"

definition valid_civil :: "civil \<Rightarrow> bool" where
  "valid_civil c = (case c of (y, m, d) \<Rightarrow> 1 \<le> m \<and> m \<le> 12 \<and> 1 \<le> d \<and> d \<le> days_in_month y m)"

text \<open>Day number of a calendar date, counted from 1970-01-01 (which is day 0).\<close>

definition days_from_civil :: "civil \<Rightarrow> int" where
  "days_from_civil c =
     (case c of (y, m, d) \<Rightarrow> days_before_year y + days_before_month y m + (d - 1) - 719528)"

text \<open>
  The calendar date of a day number.  The Gregorian calendar repeats every 400 years
  (146097 days); inside one period the year is found from the estimate \<open>r div 365\<close>, which
  is at most one too large, and the month by looking the day of the year up in the table.
\<close>

definition month_of_yday :: "int \<Rightarrow> int \<Rightarrow> int" where
  "month_of_yday y yd =
     (if yd < days_before_month y 2 then 1 else if yd < days_before_month y 3 then 2
      else if yd < days_before_month y 4 then 3 else if yd < days_before_month y 5 then 4
      else if yd < days_before_month y 6 then 5 else if yd < days_before_month y 7 then 6
      else if yd < days_before_month y 8 then 7 else if yd < days_before_month y 9 then 8
      else if yd < days_before_month y 10 then 9 else if yd < days_before_month y 11 then 10
      else if yd < days_before_month y 12 then 11 else 12)"

definition civil_from_days :: "int \<Rightarrow> civil" where
  "civil_from_days z =
     (let n = z + 719528;
          q = n div 146097;
          r = n mod 146097;
          g = r div 365;
          y400 = (if days_before_year g \<le> r then g else g - 1);
          yd = r - days_before_year y400;
          y = 400 * q + y400;
          m = month_of_yday y yd
      in (y, m, yd - days_before_month y m + 1))"

subsection \<open>Date strings\<close>

definition dig :: "nat \<Rightarrow> char" where
  "dig n = char_of (48 + n)"

definition pad2 :: "nat \<Rightarrow> string" where
  "pad2 n = [dig (n div 10 mod 10), dig (n mod 10)]"

definition pad4 :: "nat \<Rightarrow> string" where
  "pad4 n = [dig (n div 1000 mod 10), dig (n div 100 mod 10), dig (n div 10 mod 10), dig (n mod 10)]"

definition pad6 :: "nat \<Rightarrow> string" where
  "pad6 n = [dig (n div 100000 mod 10), dig (n div 10000 mod 10)] @ pad4 n"

text \<open>
  The date part of \<^verbatim>\<open>Date.prototype.toISOString\<close>: \<^verbatim>\<open>YYYY-MM-DD\<close> for the years 0 to 9999,
  and the expanded form with a sign and six digits for the other years.
\<close>

definition iso_date :: "civil \<Rightarrow> string" where
  "iso_date c =
     (case c of (y, m, d) \<Rightarrow>
        (if 0 \<le> y \<and> y \<le> 9999 then pad4 (nat y)
         else (if y < 0 then ''-'' else ''+'') @ pad6 (nat \<bar>y\<bar>))
        @ ''-'' @ pad2 (nat m) @ ''-'' @ pad2 (nat d))"

text \<open>
  A Date can hold 100,000,000 days on either side of the epoch; outside this range the
  time value is NaN.
\<close>

definition valid_time :: "int \<Rightarrow> bool" where
  "valid_time t \<longleftrightarrow> - 8640000000000000 \<le> t \<and> t \<le> 8640000000000000"

text \<open>\<^verbatim>\<open>getDateString(date)\<close>: \<^verbatim>\<open>date.toISOString().split('T')[0]\<close>, for a valid Date.\<close>

definition getDateString :: "int \<Rightarrow> string" where
  "getDateString date = iso_date (civil_from_days (date div MS_PER_DAY))"

definition digit_val :: "char \<Rightarrow> nat option" where
  "digit_val c = (if CHR ''0'' \<le> c \<and> c \<le> CHR ''9'' then Some (of_char c - 48) else None)"

fun number_of_digits :: "nat \<Rightarrow> string \<Rightarrow> nat option" where
  "number_of_digits acc [] = Some acc"
| "number_of_digits acc (c # cs) =
     (case digit_val c of None \<Rightarrow> None | Some v \<Rightarrow> number_of_digits (10 * acc + v) cs)"

definition parse_iso_date :: "string \<Rightarrow> civil option" where
  "parse_iso_date s =
     (if length s = 10 \<and> s ! 4 = CHR ''-'' \<and> s ! 7 = CHR ''-'' then
        (case (number_of_digits 0 (take 4 s), number_of_digits 0 (take 2 (drop 5 s)),
               number_of_digits 0 (drop 8 s)) of
           (Some y, Some m, Some d) \<Rightarrow> Some (int y, int m, int d)
         | _ \<Rightarrow> None)
      else None)"

text \<open>
  \<^verbatim>\<open>getDateFromString(dateStr)\<close>: \<^verbatim>\<open>new Date(dateStr + 'T00:00:00Z')\<close>.  For a string
  \<^verbatim>\<open>YYYY-MM-DD\<close> that names a day of the calendar the result is midnight UTC of that day.
  Every other string is taken to give an invalid Date (\<open>None\<close>); what an engine makes of such
  strings is implementation-defined, and the theorems below that depend on parsing assume
  canonical strings.
\<close>

definition getDateFromString :: "string \<Rightarrow> int option" where
  "getDateFromString dateStr =
     (case parse_iso_date dateStr of
        None \<Rightarrow> None
      | Some c \<Rightarrow> if valid_civil c then Some (days_from_civil c * MS_PER_DAY) else None)"

text \<open>
  A canonical date string is a string \<^verbatim>\<open>YYYY-MM-DD\<close> of digits and hyphens that names a
  day of the calendar, the form in which the script stores every date.
\<close>

definition canonical :: "string \<Rightarrow> bool" where
  "canonical s \<longleftrightarrow> getDateFromString s \<noteq> None"

subsection \<open>Numbers\<close>

text \<open>
  JavaScript numbers are IEEE 754 double-precision values.  The integers the script handles
  (time values, day counts, array lengths) are represented exactly; NaN is \<open>None\<close>.
  The results of \<^verbatim>\<open>/\<close> and \<^verbatim>\<open>*\<close> are rounded to the nearest double, ties to even:
  \<open>binary64\<close> is that rounding for the normal range (53 significant bits), which is where
  the quotients and products of the script lie.
\<close>

definition pow2 :: "int \<Rightarrow> rat" where
  "pow2 e = (if 0 \<le> e then 2 ^ nat e else 1 / 2 ^ nat (- e))"

definition round_ties_even :: "rat \<Rightarrow> int" where
  "round_ties_even x =
     (let f = \<lfloor>x\<rfloor>; r = x - of_int f
      in if r < 1 / 2 then f else if 1 / 2 < r then f + 1 else if even f then f else f + 1)"

definition binary64 :: "rat \<Rightarrow> rat" where
  "binary64 x =
     (if x = 0 then 0
      else let (p, q) = quotient_of \<bar>x\<bar>;
               k = bitlen p - bitlen q;
               e = (if \<bar>x\<bar> < pow2 k then k - 53 else k - 52)
           in sgn x * of_int (round_ties_even (\<bar>x\<bar> / pow2 e)) * pow2 e)"

text \<open>\<^verbatim>\<open>Math.round\<close>: the nearest integer, a tie going up.\<close>

definition Math_round :: "rat \<Rightarrow> int" where
  "Math_round x = \<lfloor>x + 1 / 2\<rfloor>"

text \<open>Comparison of numbers: every comparison with NaN is false.\<close>

definition js_le :: "int option \<Rightarrow> int option \<Rightarrow> bool" where
  "js_le a b = (case (a, b) of (Some x, Some y) \<Rightarrow> x \<le> y | _ \<Rightarrow> False)"

definition js_gt :: "int option \<Rightarrow> int option \<Rightarrow> bool" where
  "js_gt a b = (case (a, b) of (Some x, Some y) \<Rightarrow> x > y | _ \<Rightarrow> False)"

text \<open>An integer number converted to a string, as a template literal does.\<close>

fun decimal :: "nat \<Rightarrow> string" where
  "decimal n = (if n < 10 then [dig n] else decimal (n div 10) @ [dig (n mod 10)])"

declare decimal.simps [simp del]

definition number_to_string :: "int option \<Rightarrow> string" where
  "number_to_string x =
     (case x of None \<Rightarrow> ''NaN''
      | Some i \<Rightarrow> if i < 0 then ''-'' @ decimal (nat (- i)) else decimal (nat i))"

section \<open>The script\<close>

subsection \<open>Data management\<close>

definition MAX_HABIT_DURATION_DAYS :: int where
  "MAX_HABIT_DURATION_DAYS = 90"

text \<open>
  The \<^verbatim>\<open>completionDates\<close> field of a stored habit: absent, some value that is not an
  array (with its truthiness), or an array of strings.
\<close>

datatype dates_field = Missing | Other bool | Dates "string list"

fun truthy :: "dates_field \<Rightarrow> bool" where
  "truthy Missing = False"
| "truthy (Other b) = b"
| "truthy (Dates xs) = True"

fun isArray :: "dates_field \<Rightarrow> bool" where
  "isArray (Dates xs) = True"
| "isArray _ = False"

fun elements :: "dates_field \<Rightarrow> string list" where
  "elements (Dates xs) = xs"
| "elements _ = []"

record habit =
  id' :: string
  name :: string
  startDate :: string
  endDate :: string
  createdAt :: string
  completionDates :: dates_field

text \<open>\<^verbatim>\<open>getTodayDateString()\<close>, with the clock reading \<open>now\<close> passed in.\<close>

definition getTodayDateString :: "int \<Rightarrow> string" where
  "getTodayDateString now = getDateString now"

definition calculateDaysDifference :: "string \<Rightarrow> string \<Rightarrow> int option" where
  "calculateDaysDifference startStr endStr =
     (case (getDateFromString startStr, getDateFromString endStr) of
        (Some start, Some end') \<Rightarrow> Some ((end' - start) div MS_PER_DAY)
      | _ \<Rightarrow> None)"

record validation =
  valid :: bool
  error :: string

definition validateDateRange :: "string \<Rightarrow> string \<Rightarrow> validation" where
  "validateDateRange startDateStr endDateStr =
     (let start = getDateFromString startDateStr;
          end' = getDateFromString endDateStr
      in if js_le end' start then
           \<lparr>valid = False, error = ''End date must be after start date''\<rparr>
         else
           let daysDiff = calculateDaysDifference startDateStr endDateStr
           in if js_gt daysDiff (Some MAX_HABIT_DURATION_DAYS) then
                \<lparr>valid = False,
                 error = ''Maximum duration is '' @ number_to_string (Some MAX_HABIT_DURATION_DAYS)
                   @ '' days. Your range is '' @ number_to_string daysDiff @ '' days.''\<rparr>
              else \<lparr>valid = True, error = []\<rparr>)"

text \<open>
  The store is the list of habits under the storage key; \<^verbatim>\<open>getHabits\<close> reads it and
  \<^verbatim>\<open>saveHabits\<close> writes it back.
\<close>

fun indexOf :: "'a list \<Rightarrow> 'a \<Rightarrow> int" where
  "indexOf [] x = - 1"
| "indexOf (y # ys) x = (if y = x then 0 else let i = indexOf ys x in if i < 0 then - 1 else i + 1)"

text \<open>\<^verbatim>\<open>array.splice(index, 1)\<close> for an index inside the array.\<close>

definition splice1 :: "'a list \<Rightarrow> int \<Rightarrow> 'a list" where
  "splice1 xs index = take (nat index) xs @ drop (nat index + 1) xs"

text \<open>The body of \<^verbatim>\<open>toggleHabitCompletion\<close> once the habit is found.\<close>

definition toggle_completion :: "string \<Rightarrow> habit \<Rightarrow> habit" where
  "toggle_completion dateStr habit =
     (let dates = (if \<not> truthy (completionDates habit) \<or> \<not> isArray (completionDates habit)
                   then [] else elements (completionDates habit));
          index = indexOf dates dateStr
      in habit\<lparr>completionDates :=
           Dates (if index > - 1 then splice1 dates index else dates @ [dateStr])\<rparr>)"

fun update_first :: "('a \<Rightarrow> bool) \<Rightarrow> ('a \<Rightarrow> 'a) \<Rightarrow> 'a list \<Rightarrow> 'a list" where
  "update_first P f [] = []"
| "update_first P f (x # xs) = (if P x then f x # xs else x # update_first P f xs)"

definition toggleHabitCompletion :: "string \<Rightarrow> string \<Rightarrow> habit list \<Rightarrow> habit list" where
  "toggleHabitCompletion habitId dateStr habits =
     (case List.find (\<lambda>h. id' h = habitId) habits of
        None \<Rightarrow> habits
      | Some habit \<Rightarrow> update_first (\<lambda>h. id' h = habitId) (toggle_completion dateStr) habits)"

definition isHabitCompletedOnDate :: "habit option \<Rightarrow> string \<Rightarrow> bool" where
  "isHabitCompletedOnDate habit dateStr =
     (case habit of
        None \<Rightarrow> False
      | Some h \<Rightarrow>
          if \<not> truthy (completionDates h) \<or> \<not> isArray (completionDates h) then False
          else dateStr \<in> set (elements (completionDates h)))"

definition isDateWithinRange :: "habit \<Rightarrow> string \<Rightarrow> bool" where
  "isDateWithinRange habit dateStr \<longleftrightarrow> dateStr \<ge> startDate habit \<and> dateStr \<le> endDate habit"

subsection \<open>Habit status\<close>

definition getHabitStatus :: "int \<Rightarrow> habit \<Rightarrow> string" where
  "getHabitStatus now habit =
     (let today = getTodayDateString now
      in if today < startDate habit then ''not-started''
         else if today > endDate habit then ''completed''
         else ''active'')"

text \<open>
  \<^verbatim>\<open>toLocaleDateString\<close> depends on the locale of the browser and is a parameter.
\<close>

definition getStatusMessage :: "(int option \<Rightarrow> string) \<Rightarrow> int \<Rightarrow> habit \<Rightarrow> string" where
  "getStatusMessage toLocaleDateString now habit =
     (let status = getHabitStatus now habit;
          today = getTodayDateString now
      in if status = ''not-started'' then
           ''Starts on '' @ toLocaleDateString (getDateFromString (startDate habit))
         else if status = ''completed'' then
           ''Ended on '' @ toLocaleDateString (getDateFromString (endDate habit))
         else
           let daysLeft = map_option (\<lambda>d. d + 1) (calculateDaysDifference today (endDate habit))
           in number_to_string daysLeft @ '' day'' @ (if daysLeft \<noteq> Some 1 then ''s'' else [])
                @ '' remaining'')"

subsection \<open>Statistics\<close>

datatype js_error = RangeError

text \<open>
  The local time zone of the browser, as ECMAScript has it: the offset of local time from
  UTC in milliseconds, at a time value (\<^verbatim>\<open>LocalTZA(t, true)\<close>) and at a local time
  (\<^verbatim>\<open>LocalTZA(t, false)\<close>; a local time that a change of offset skips or repeats is read
  with the offset before the change).  The time zone is a parameter of the functions that
  read local calendar fields.
\<close>

record time_zone =
  offset_at_utc :: "int \<Rightarrow> int"
  offset_at_local :: "int \<Rightarrow> int"

definition LocalTime :: "time_zone \<Rightarrow> int \<Rightarrow> int" where
  "LocalTime tz t = t + offset_at_utc tz t"

definition UTC :: "time_zone \<Rightarrow> int \<Rightarrow> int" where
  "UTC tz t = t - offset_at_local tz t"

text \<open>
  \<^verbatim>\<open>currentDate.setDate(currentDate.getDate() - 1)\<close>: the local time of the Date, with the
  day of the month lowered by one and the time within the day kept, is one day of local
  time earlier; the new time value is that local time read back as UTC.  (A result outside
  the range of time values is an invalid Date.)
\<close>

definition setDate_previous :: "time_zone \<Rightarrow> int \<Rightarrow> int" where
  "setDate_previous tz currentDate = UTC tz (LocalTime tz currentDate - MS_PER_DAY)"

text \<open>
  The loop of \<^verbatim>\<open>calculateCurrentStreak\<close>.  \<open>currentDate\<close> is the time value of the Date
  that the loop steps back, starting from the clock reading \<open>now\<close> of \<^verbatim>\<open>new Date()\<close>.
  The date string is read in UTC (\<^verbatim>\<open>toISOString\<close>), the step is made in local time.
  \<^verbatim>\<open>toISOString\<close> of an invalid Date throws a RangeError.  In a time zone whose offset
  jumps by a whole day the step may not move the Date at all and the loop may not end: the
  result is \<open>None\<close> then.
\<close>

partial_function (option) calculateCurrentStreak_loop ::
  "time_zone \<Rightarrow> habit \<Rightarrow> int \<Rightarrow> nat \<Rightarrow> (js_error + nat) option" where
  "calculateCurrentStreak_loop tz habit currentDate streak =
     (if \<not> valid_time currentDate then Some (Inl RangeError)
      else
        let dateStr = getDateString currentDate
        in if \<not> isDateWithinRange habit dateStr then Some (Inr streak)
           else if isHabitCompletedOnDate (Some habit) dateStr then
             calculateCurrentStreak_loop tz habit (setDate_previous tz currentDate) (streak + 1)
           else Some (Inr streak))"

declare calculateCurrentStreak_loop.simps [code]

definition calculateCurrentStreak :: "time_zone \<Rightarrow> int \<Rightarrow> habit \<Rightarrow> (js_error + nat) option" where
  "calculateCurrentStreak tz now habit = calculateCurrentStreak_loop tz habit now 0"

text \<open>
  The \<^verbatim>\<open>for\<close> loop of \<^verbatim>\<open>calculateLongestStreak\<close> over the sorted dates: the first
  element of the list is \<^verbatim>\<open>sortedDates[i - 1]\<close>, the second is \<^verbatim>\<open>sortedDates[i]\<close>.
  \<open>dayDiff_is_1\<close> is the test \<^verbatim>\<open>dayDiff === 1\<close> on the quotient of the difference of the
  two time values by the milliseconds of a day; the quotient is NaN, and the test false,
  when one of the Dates is invalid.  \<^verbatim>\<open>sort()\<close> without a comparison function orders
  strings by their character codes, so the sorted array is \<open>sort\<close> of the list.
\<close>

definition dayDiff_is_1 :: "string \<Rightarrow> string \<Rightarrow> bool" where
  "dayDiff_is_1 prevStr currStr =
     (case (getDateFromString prevStr, getDateFromString currStr) of
        (Some prevDate, Some currDate) \<Rightarrow>
          (of_int (currDate - prevDate) :: rat) / of_int MS_PER_DAY = 1
      | _ \<Rightarrow> False)"

fun longest_scan :: "string list \<Rightarrow> nat \<Rightarrow> nat \<Rightarrow> nat" where
  "longest_scan (prevStr # currStr # rest) maxStreak currentStreak =
     (if dayDiff_is_1 prevStr currStr then
        longest_scan (currStr # rest) (max maxStreak (currentStreak + 1)) (currentStreak + 1)
      else longest_scan (currStr # rest) maxStreak 1)"
| "longest_scan sortedDates maxStreak currentStreak = maxStreak"

definition calculateLongestStreak :: "habit \<Rightarrow> nat" where
  "calculateLongestStreak habit =
     (if \<not> truthy (completionDates habit) \<or> \<not> isArray (completionDates habit) then 0
      else
        let datesInRange = filter (isDateWithinRange habit) (elements (completionDates habit))
        in if length datesInRange = 0 then 0
           else let sortedDates = sort datesInRange in longest_scan sortedDates 1 1)"

definition calculateTotalCompleted :: "habit \<Rightarrow> nat" where
  "calculateTotalCompleted habit =
     (if \<not> truthy (completionDates habit) \<or> \<not> isArray (completionDates habit) then 0
      else length (filter (isDateWithinRange habit) (elements (completionDates habit))))"

definition calculateCompletionPercentage :: "habit \<Rightarrow> int option" where
  "calculateCompletionPercentage habit =
     (case calculateDaysDifference (startDate habit) (endDate habit) of
        None \<Rightarrow> None
      | Some d \<Rightarrow>
          let daysDiff = d + 1
          in if daysDiff = 0 then Some 0
             else
               let completedDays = calculateTotalCompleted habit;
                   percentage =
                     Math_round (binary64 (binary64 (of_nat completedDays / of_int daysDiff) * 100))
               in Some (min percentage 100))"

section \<open>The longest streak as the specification words it\<close>

text \<open>
  The specification describes the longest streak as follows: filter the completion dates
  to those in range, sort them ascending, split the sorted dates into maximal runs in which
  each date is exactly one day after the one before it, and return the greatest run length,
  or 0 when no date is in range.  \<open>spec_runs\<close> and \<open>spec_longest_streak\<close> follow these
  words; they are compared with the loop of the script below.
\<close>

fun spec_runs :: "string list \<Rightarrow> string list list" where
  "spec_runs [] = []"
| "spec_runs [x] = [[x]]"
| "spec_runs (x # y # zs) =
     (if dayDiff_is_1 x y then
        (case spec_runs (y # zs) of r # rs \<Rightarrow> (x # r) # rs | [] \<Rightarrow> [[x]])
      else [x] # spec_runs (y # zs))"

definition spec_longest_streak :: "habit \<Rightarrow> nat" where
  "spec_longest_streak habit =
     (let sortedDates = sort (filter (isDateWithinRange habit) (elements (completionDates habit)))
      in if sortedDates = [] then 0 else Max (set (map length (spec_runs sortedDates))))"

section \<open>Auxiliary notions for the proofs\<close>

text \<open>The chronological order on calendar dates.\<close>

definition civil_less :: "civil \<Rightarrow> civil \<Rightarrow> bool" where
  "civil_less c c' = (case (c, c') of ((y, m, d), (y', m', d')) \<Rightarrow>
     y < y' \<or> y = y' \<and> (m < m' \<or> m = m' \<and> d < d'))"

text \<open>The calendar dates that \<open>iso_date\<close> writes with four year digits and two-digit fields.\<close>

definition year_4digit :: "civil \<Rightarrow> bool" where
  "year_4digit c = (case c of (y, m, d) \<Rightarrow> 0 \<le> y \<and> y \<le> 9999 \<and> 0 \<le> m \<and> m \<le> 99 \<and> 0 \<le> d \<and> d \<le> 99)"


text \<open>The condition under which the loop of \<open>calculateCurrentStreak\<close> counts the day of
  the time value \<open>t\<close> and steps back: the day is in range and completed.\<close>

definition streak_day :: "habit \<Rightarrow> int \<Rightarrow> bool" where
  "streak_day h t \<longleftrightarrow>
     isDateWithinRange h (getDateString t) \<and> isHabitCompletedOnDate (Some h) (getDateString t)"

text \<open>
  Example time zones: UTC, and America/New_York with its rules of the year 2024 (five hours
  behind UTC, four hours from 2024-03-10T07:00Z to 2024-11-03T06:00Z, that is from 03:00 local
  time on 2024-03-10 to 02:00 local time on 2024-11-03).
\<close>

definition utc_zone :: time_zone where
  "utc_zone = \<lparr>offset_at_utc = (\<lambda>t. 0), offset_at_local = (\<lambda>t. 0)\<rparr>"

definition new_york_2024 :: time_zone where
  "new_york_2024 =
     \<lparr>offset_at_utc = (\<lambda>t. if 1710054000000 \<le> t \<and> t < 1730613600000 then - 14400000 else - 18000000),
      offset_at_local = (\<lambda>t. if 1710039600000 \<le> t \<and> t < 1730599200000 then - 14400000 else - 18000000)\<rparr>"

text \<open>Example habits: the scenarios of the specification, a record whose end date is
  before its start date, habits with completions around the two changes of offset of 2024 in
  America/New_York, a record with a repeated completion date, and a forty-day habit with 23
  completions.\<close>

definition h_scenario :: habit where
  "h_scenario = \<lparr>id' = ''1704067200000'', name = ''Gym'', startDate = ''2024-01-01'',
     endDate = ''2024-01-10'', createdAt = ''2024-01-01T08:00:00.000Z'',
     completionDates = Dates [''2024-01-01'', ''2024-01-02'', ''2024-01-03'', ''2024-01-05'']\<rparr>"

definition h_three :: habit where
  "h_three = \<lparr>id' = ''1704067200000'', name = ''Gym'', startDate = ''2024-01-01'',
     endDate = ''2024-01-10'', createdAt = ''2024-01-01T08:00:00.000Z'',
     completionDates = Dates [''2024-01-01'', ''2024-01-02'', ''2024-01-03'']\<rparr>"

definition h_inverted :: habit where
  "h_inverted = \<lparr>id' = ''1704067200000'', name = ''Gym'', startDate = ''2024-01-10'',
     endDate = ''2024-01-01'', createdAt = ''2024-01-01T08:00:00.000Z'',
     completionDates = Dates []\<rparr>"

definition h_march :: habit where
  "h_march = \<lparr>id' = ''1709251200000'', name = ''Gym'', startDate = ''2024-03-01'',
     endDate = ''2024-03-31'', createdAt = ''2024-03-01T08:00:00.000Z'',
     completionDates = Dates [''2024-03-10'']\<rparr>"

definition h_november :: habit where
  "h_november = \<lparr>id' = ''1730419200000'', name = ''Gym'', startDate = ''2024-11-01'',
     endDate = ''2024-11-30'', createdAt = ''2024-11-01T08:00:00.000Z'',
     completionDates = Dates [''2024-11-04'', ''2024-11-02'']\<rparr>"

definition h_duplicate :: habit where
  "h_duplicate = \<lparr>id' = ''1704067200000'', name = ''Gym'', startDate = ''2024-01-01'',
     endDate = ''2024-01-10'', createdAt = ''2024-01-01T08:00:00.000Z'',
     completionDates = Dates [''2024-01-01'', ''2024-01-02'', ''2024-01-02'', ''2024-01-03'']\<rparr>"

definition h_forty :: habit where
  "h_forty = \<lparr>id' = ''1704067200000'', name = ''Gym'', startDate = ''2024-01-01'',
     endDate = ''2024-02-09'', createdAt = ''2024-01-01T08:00:00.000Z'',
     completionDates = Dates [''2024-01-01'', ''2024-01-02'', ''2024-01-03'', ''2024-01-04'', ''2024-01-05'', ''2024-01-06'', ''2024-01-07'', ''2024-01-08'', ''2024-01-09'', ''2024-01-10'', ''2024-01-11'', ''2024-01-12'', ''2024-01-13'', ''2024-01-14'', ''2024-01-15'', ''2024-01-16'', ''2024-01-17'', ''2024-01-18'', ''2024-01-19'', ''2024-01-20'', ''2024-01-21'', ''2024-01-22'', ''2024-01-23'']\<rparr>"

section \<open>Properties of the platform model\<close>

subsection \<open>Calendar arithmetic\<close>

lemma div_unique_int: "0 < k \<Longrightarrow> k * q \<le> x \<Longrightarrow> x < k * q + k \<Longrightarrow> x div k = q" for x k q :: int
proof -
  assume k: "0 < k" and a: "k * q \<le> x" and b: "x < k * q + k"
  have "x = (x - k * q) + q * k" by simp
  then have "x div k = (x - k * q + q * k) div k" by simp
  also have "\<dots> = q + (x - k * q) div k"
    using k by (simp only: div_mult_self1)
  finally have "x div k = q + (x - k * q) div k" .
  moreover have "(x - k * q) div k = 0" using a b k by (simp add: div_pos_pos_trivial)
  ultimately show ?thesis by simp
qed

lemma ceil_div_Suc:
  "0 < k \<Longrightarrow> (y + k) div k = (y + (k - 1)) div k + (if y mod k = 0 then 1 else 0)" for y k :: int
proof -
  assume k: "0 < k"
  have r: "0 \<le> y mod k" "y mod k < k" using k by simp_all
  have y: "y = k * (y div k) + y mod k" by simp
  have 1: "(y + k) div k = y div k + 1" using k by simp
  show ?thesis
  proof (cases "y mod k = 0")
    case True
    have "(y + (k - 1)) div k = y div k"
    proof (rule div_unique_int[OF k])
      show "k * (y div k) \<le> y + (k - 1)" using y True k by linarith
      show "y + (k - 1) < k * (y div k) + k" using y True k by linarith
    qed
    with 1 True show ?thesis by simp
  next
    case False
    have "(y + (k - 1)) div k = y div k + 1"
    proof (rule div_unique_int[OF k])
      have "k * (y div k + 1) = k * (y div k) + k" by (simp add: algebra_simps)
      then show "k * (y div k + 1) \<le> y + (k - 1)" using y False r k by linarith
      show "y + (k - 1) < k * (y div k + 1) + k" using y False r k 
        \<open>k * (y div k + 1) = k * (y div k) + k\<close> by linarith
    qed
    with 1 False show ?thesis by simp
  qed
qed

lemma days_before_year_Suc:
  "days_before_year (y + 1) = days_before_year y + (if is_leap y then 366 else 365)"
proof -
  define A where "A = (y + 3) div 4"
  define B where "B = (y + 99) div 100"
  define C where "C = (y + 399) div 400"
  define p4 where "p4 \<longleftrightarrow> y mod 4 = 0"
  define p100 where "p100 \<longleftrightarrow> y mod 100 = 0"
  define p400 where "p400 \<longleftrightarrow> y mod 400 = 0"
  have a: "(y + 1 + 3) div 4 = A + (if p4 then 1 else 0)"
    using ceil_div_Suc[of 4 y] by (simp add: A_def p4_def)
  have b: "(y + 1 + 99) div 100 = B + (if p100 then 1 else 0)"
    using ceil_div_Suc[of 100 y] by (simp add: B_def p100_def)
  have c: "(y + 1 + 399) div 400 = C + (if p400 then 1 else 0)"
    using ceil_div_Suc[of 400 y] by (simp add: C_def p400_def)
  have "(100::int) dvd 400" "(4::int) dvd 100" by simp_all
  then have d: "p400 \<Longrightarrow> p100" "p100 \<Longrightarrow> p4"
    unfolding p4_def p100_def p400_def mod_eq_0_iff_dvd by (blast intro: dvd_trans)+
  have l: "is_leap y \<longleftrightarrow> p4 \<and> (\<not> p100 \<or> p400)"
    by (simp add: is_leap_def p4_def p100_def p400_def)
  have e: "days_before_year (y + 1) = 365 * (y + 1) + (A + (if p4 then 1 else 0))
      - (B + (if p100 then 1 else 0)) + (C + (if p400 then 1 else 0))"
    unfolding days_before_year_def a b c ..
  have f: "days_before_year y = 365 * y + A - B + C"
    unfolding days_before_year_def A_def B_def C_def ..
  show ?thesis
    unfolding e f l using d by (cases p4; cases p100; cases p400; simp)
qed

lemma days_before_year_lower: "a \<le> b \<Longrightarrow> days_before_year a + 365 * (b - a) \<le> days_before_year b"
proof (induction b rule: int_ge_induct)
  case base
  show ?case by simp
next
  case (step i)
  then show ?case using days_before_year_Suc[of i] by (simp split: if_splits)
qed

lemma days_before_year_mono: "a \<le> b \<Longrightarrow> days_before_year a \<le> days_before_year b"
  using days_before_year_lower[of a b] by simp

lemma days_before_year_0: "days_before_year 0 = 0"
  by (simp add: days_before_year_def)

lemma days_before_year_400: "days_before_year 400 = 146097"
  by (simp add: days_before_year_def)

lemma div_period: "k \<noteq> 0 \<Longrightarrow> (k * c * q + x) div k = c * q + x div k" for k c q x :: int
proof -
  assume k: "k \<noteq> 0"
  have e: "k * c * q + x = x + (c * q) * k" by (simp add: algebra_simps)
  show ?thesis unfolding e by (rule div_mult_self1[OF k])
qed

lemma mod_period: "(k * c * q + x) mod k = x mod k" for k c q x :: int
proof -
  have e: "k * c * q + x = x + (c * q) * k" by (simp add: algebra_simps)
  show ?thesis unfolding e by (rule mod_mult_self1)
qed

lemma days_before_year_period: "days_before_year (400 * q + y) = 146097 * q + days_before_year y"
proof -
  have a: "(400 * q + y + 3) div 4 = 100 * q + (y + 3) div 4"
    using div_period[of 4 100 q "y + 3"] by (simp add: add.assoc)
  have b: "(400 * q + y + 99) div 100 = 4 * q + (y + 99) div 100"
    using div_period[of 100 4 q "y + 99"] by (simp add: add.assoc)
  have c: "(400 * q + y + 399) div 400 = q + (y + 399) div 400"
    using div_period[of 400 1 q "y + 399"] by (simp add: add.assoc)
  show ?thesis unfolding days_before_year_def a b c by simp
qed

lemma is_leap_period: "is_leap (400 * q + y) = is_leap y"
proof -
  have "(400 * q + y) mod 4 = y mod 4" using mod_period[of 4 100 q y] by simp
  moreover have "(400 * q + y) mod 100 = y mod 100" using mod_period[of 100 4 q y] by simp
  moreover have "(400 * q + y) mod 400 = y mod 400" using mod_period[of 400 1 q y] by simp
  ultimately show ?thesis by (simp only: is_leap_def)
qed

lemma days_before_month_Suc:
  "1 \<le> m \<Longrightarrow> m \<le> 12 \<Longrightarrow> days_before_month y (m + 1) = days_before_month y m + days_in_month y m"
proof -
  assume "1 \<le> m" "m \<le> 12"
  then have "m = 1 \<or> m = 2 \<or> m = 3 \<or> m = 4 \<or> m = 5 \<or> m = 6 \<or> m = 7 \<or> m = 8 \<or> m = 9 \<or> m = 10
      \<or> m = 11 \<or> m = 12" by arith
  then show ?thesis
    by (elim disjE; cases "is_leap y"; simp add: days_before_month_def days_in_month_def)
qed

lemma days_before_month_mono:
  assumes "m \<le> m'" "1 \<le> m"
  shows "days_before_month y m \<le> days_before_month y m'"
  using assms
proof (induction m' rule: int_ge_induct)
  case base
  show ?case by simp
next
  case (step i)
  show ?case
  proof (cases "i \<le> 12")
    case True
    have "0 \<le> days_in_month y i" by (simp add: days_in_month_def)
    with step True days_before_month_Suc[of i y] show ?thesis by simp
  next
    case False
    then have "days_before_month y (i + 1) = days_before_month y i"
      by (simp add: days_before_month_def)
    with step show ?thesis by simp
  qed
qed

lemma days_before_month_1: "days_before_month y 1 = 0"
  by (simp add: days_before_month_def)

lemma days_before_month_13: "days_before_month y 13 = (if is_leap y then 366 else 365)"
  by (simp add: days_before_month_def)

lemma month_of_yday_range:
  "0 \<le> yd \<Longrightarrow> yd < days_before_month y 13 \<Longrightarrow>
     1 \<le> month_of_yday y yd \<and> month_of_yday y yd \<le> 12
     \<and> days_before_month y (month_of_yday y yd) \<le> yd
     \<and> yd < days_before_month y (month_of_yday y yd + 1)"
  by (cases "is_leap y"; simp add: month_of_yday_def days_before_month_def)

lemma year_in_period:
  assumes r: "0 \<le> r" "r < 146097"
  defines "g \<equiv> r div 365"
  defines "y \<equiv> (if days_before_year g \<le> r then g else g - 1)"
  shows "0 \<le> y \<and> y \<le> 399 \<and> days_before_year y \<le> r \<and> r < days_before_year (y + 1)"
proof -
  have g: "365 * g \<le> r" "r < 365 * g + 365"
  proof -
    have "r = 365 * (r div 365) + r mod 365" by simp
    moreover have "0 \<le> r mod 365" "r mod 365 < 365" by simp_all
    ultimately show "365 * g \<le> r" "r < 365 * g + 365" unfolding g_def by linarith+
  qed
  have g0: "0 \<le> g" using g r by linarith
  have g400: "g \<le> 400" using g r by linarith
  have lo: "365 * g \<le> days_before_year g"
    using days_before_year_lower[of 0 g] g0 by (simp add: days_before_year_0)
  have hi: "days_before_year (g - 1) \<le> 365 * g"
    using days_before_year_lower[of "g - 1" 400] g400 by (simp add: days_before_year_400)
  have st: "days_before_year (g + 1) \<ge> days_before_year g + 365"
    using days_before_year_Suc[of g] by (simp split: if_splits)
  show ?thesis
  proof (cases "days_before_year g \<le> r")
    case True
    then have y: "y = g" by (simp add: y_def)
    have "g \<noteq> 400" using True r by (auto simp: days_before_year_400)
    then show ?thesis unfolding y using True g0 g400 g lo st by linarith
  next
    case False
    then have y: "y = g - 1" by (simp add: y_def)
    have "g \<noteq> 0" using False r by (auto simp: days_before_year_0)
    then show ?thesis unfolding y using False g0 g400 g hi by simp
  qed
qed

lemma civil_less_linear: "civil_less c c' \<or> c = c' \<or> civil_less c' c"
  by (cases c; cases c') (auto simp: civil_less_def)

lemma days_in_month_pos: "28 \<le> days_in_month y m"
  by (simp add: days_in_month_def)

lemma yday_range:
  assumes "valid_civil (y, m, d)"
  shows "0 \<le> days_before_month y m + (d - 1)"
    and "days_before_month y m + (d - 1) < days_before_month y (m + 1)"
    and "days_before_month y (m + 1) \<le> days_before_month y 13"
proof -
  from assms have m: "1 \<le> m" "m \<le> 12" and d: "1 \<le> d" "d \<le> days_in_month y m"
    by (simp_all add: valid_civil_def)
  have "0 \<le> days_before_month y m"
    using days_before_month_mono[of 1 m y] m by (simp add: days_before_month_1)
  then show "0 \<le> days_before_month y m + (d - 1)" using d by simp
  show "days_before_month y m + (d - 1) < days_before_month y (m + 1)"
    using days_before_month_Suc[OF m, of y] d by simp
  show "days_before_month y (m + 1) \<le> days_before_month y 13"
    using days_before_month_mono[of "m + 1" 13 y] m by simp
qed

lemma days_from_civil_mono:
  assumes "valid_civil c" "valid_civil c'" "civil_less c c'"
  shows "days_from_civil c < days_from_civil c'"
proof -
  obtain y m d where c: "c = (y, m, d)" by (cases c)
  obtain y' m' d' where c': "c' = (y', m', d')" by (cases c')
  note v = assms(1)[unfolded c] and v' = assms(2)[unfolded c']
  from assms(3) consider "y < y'" | "y = y'" "m < m'" | "y = y'" "m = m'" "d < d'"
    by (auto simp: civil_less_def c c')
  then show ?thesis
  proof cases
    case 1
    have "days_before_month y m + (d - 1) < days_before_month y 13"
      using yday_range(2,3)[OF v] by linarith
    also have "days_before_year y + days_before_month y 13 = days_before_year (y + 1)"
      by (simp add: days_before_year_Suc days_before_month_13)
    finally have "days_before_year y + days_before_month y m + (d - 1) < days_before_year (y + 1)"
      by simp
    moreover have "days_before_year (y + 1) \<le> days_before_year y'"
      using 1 by (intro days_before_year_mono) simp
    moreover have "0 \<le> days_before_month y' m' + (d' - 1)" by (rule yday_range(1)[OF v'])
    ultimately show ?thesis by (simp add: days_from_civil_def c c')
  next
    case 2
    have "days_before_month y m + (d - 1) < days_before_month y (m + 1)"
      by (rule yday_range(2)[OF v])
    moreover have "days_before_month y (m + 1) \<le> days_before_month y m'"
      using 2 v by (intro days_before_month_mono) (simp_all add: valid_civil_def)
    moreover have "1 \<le> d'" using v' by (simp add: valid_civil_def)
    ultimately show ?thesis using 2 by (simp add: days_from_civil_def c c')
  next
    case 3
    then show ?thesis by (simp add: days_from_civil_def c c')
  qed
qed

lemma civil_from_days_correct:
  "valid_civil (civil_from_days z) \<and> days_from_civil (civil_from_days z) = z"
proof -
  define n where "n = z + 719528"
  define q where "q = n div 146097"
  define r where "r = n mod 146097"
  define g where "g = r div 365"
  define y4 where "y4 = (if days_before_year g \<le> r then g else g - 1)"
  define yd where "yd = r - days_before_year y4"
  define y where "y = 400 * q + y4"
  define m where "m = month_of_yday y yd"
  have cfd: "civil_from_days z = (y, m, yd - days_before_month y m + 1)"
    by (simp add: civil_from_days_def Let_def n_def q_def r_def g_def y4_def yd_def y_def m_def)
  have r: "0 \<le> r" "r < 146097" by (simp_all add: r_def)
  have n: "n = 146097 * q + r" by (simp add: q_def r_def)
  have "0 \<le> y4 \<and> y4 \<le> 399 \<and> days_before_year y4 \<le> r \<and> r < days_before_year (y4 + 1)"
    unfolding y4_def g_def by (rule year_in_period[OF r])
  then have y4: "0 \<le> y4" "y4 \<le> 399" "days_before_year y4 \<le> r" "r < days_before_year (y4 + 1)"
    by blast+
  have leap: "is_leap y = is_leap y4" by (simp add: y_def is_leap_period)
  have dbm: "days_before_month y k = days_before_month y4 k" for k
    by (simp add: days_before_month_def leap)
  have yd: "0 \<le> yd" "yd < days_before_month y 13"
    using y4 days_before_year_Suc[of y4]
    by (simp_all add: yd_def days_before_month_13 leap split: if_splits)
  note mr = month_of_yday_range[OF yd, folded m_def]
  have dim: "days_before_month y (m + 1) = days_before_month y m + days_in_month y m"
    using mr by (intro days_before_month_Suc) simp_all
  have 1: "valid_civil (y, m, yd - days_before_month y m + 1)"
    using mr dim by (simp add: valid_civil_def)
  have "days_before_year y = 146097 * q + days_before_year y4"
    by (simp add: y_def days_before_year_period)
  then have 2: "days_from_civil (y, m, yd - days_before_month y m + 1) = z"
    using n by (simp add: days_from_civil_def yd_def n_def)
  show ?thesis unfolding cfd using 1 2 by simp
qed

lemma civil_from_days_inverse:
  assumes "valid_civil c" shows "civil_from_days (days_from_civil c) = c"
proof -
  let ?c' = "civil_from_days (days_from_civil c)"
  have v: "valid_civil ?c'" and e: "days_from_civil ?c' = days_from_civil c"
    using civil_from_days_correct by simp_all
  from civil_less_linear[of ?c' c] show ?thesis
    using days_from_civil_mono[OF v assms] days_from_civil_mono[OF assms v] e by auto
qed

lemma civil_from_days_mono:
  assumes "z < z'" shows "civil_less (civil_from_days z) (civil_from_days z')"
proof -
  have v: "valid_civil (civil_from_days z)" "valid_civil (civil_from_days z')"
    and e: "days_from_civil (civil_from_days z) = z" "days_from_civil (civil_from_days z') = z'"
    using civil_from_days_correct by simp_all
  from civil_less_linear[of "civil_from_days z" "civil_from_days z'"] show ?thesis
    using days_from_civil_mono[OF v(2) v(1)] e assms by auto
qed

subsection \<open>Digits and date strings\<close>

lemma append_less_iff:
  "length a = length a' \<Longrightarrow> a @ b < a' @ b' \<longleftrightarrow> a < a' \<or> a = a' \<and> b < b'"
  for a :: "'a :: linorder list"
  by (induction a a' rule: list_induct2) auto

lemma dig_less: "a < 10 \<Longrightarrow> b < 10 \<Longrightarrow> dig a < dig b \<longleftrightarrow> a < b"
  by (simp add: dig_def less_char_def)

lemma dig_eq: "a < 10 \<Longrightarrow> b < 10 \<Longrightarrow> dig a = dig b \<longleftrightarrow> a = b"
  using dig_less[of a b] dig_less[of b a] by (metis less_irrefl linorder_neqE_nat)

lemma digit_val_dig: "n < 10 \<Longrightarrow> digit_val (dig n) = Some n"
  by (simp add: digit_val_def dig_def less_eq_char_def)

lemma digit_val_SomeD:
  assumes "digit_val c = Some v" shows "v < 10 \<and> c = dig v"
proof -
  from assms have r: "48 \<le> (of_char c :: nat)" "(of_char c :: nat) \<le> 57" and v: "v = of_char c - 48"
    by (auto simp: digit_val_def less_eq_char_def split: if_splits)
  then have "48 + v = of_char c" by simp
  then have "dig v = c" by (simp add: dig_def)
  with r v show ?thesis by auto
qed

lemma div_mod_10: "d < 10 \<Longrightarrow> (10 * q + d) div 10 = q \<and> (10 * q + d) mod 10 = d" for q d :: nat
  by simp

lemma digits2_value:
  assumes "c < 10" "d < 10" shows "pad2 (10 * c + d) = [dig c, dig d]"
  using div_mod_10[OF assms(2), of c] assms(1) by (simp add: pad2_def)

lemma digits4_value:
  assumes "a < 10" "b < 10" "c < 10" "d < 10"
  shows "pad4 (1000 * a + 100 * b + 10 * c + d) = [dig a, dig b, dig c, dig d]"
proof -
  define n where "n = 1000 * a + 100 * b + 10 * c + d"
  have n: "n = 10 * (100 * a + 10 * b + c) + d" by (simp add: n_def)
  have 0: "n mod 10 = d" and n1: "n div 10 = 10 * (10 * a + b) + c"
    using div_mod_10[OF assms(4), of "100 * a + 10 * b + c"] by (simp_all add: n)
  have 1: "n div 10 mod 10 = c" and n2: "n div 10 div 10 = 10 * a + b"
    using div_mod_10[OF assms(3), of "10 * a + b"] by (simp_all add: n1)
  have 2: "n div 10 div 10 mod 10 = b" and n3: "n div 10 div 10 div 10 = a"
    using div_mod_10[OF assms(2), of a] by (simp_all add: n2)
  have e2: "n div 100 = n div 10 div 10" using div_mult2_eq[of n 10 10] by simp
  have e3: "n div 1000 = n div 10 div 10 div 10"
    using div_mult2_eq[of n 100 10] by (simp add: e2)
  show ?thesis
    unfolding n_def[symmetric] pad4_def e2 e3 0 1 2 n3 using assms(1) by simp
qed

lemma decimal2:
  fixes n :: nat assumes "n < 100"
  shows "n = 10 * (n div 10 mod 10) + n mod 10"
proof -
  have "n div 10 < 10" using assms by simp
  then have "n div 10 mod 10 = n div 10" by simp
  then show ?thesis by simp
qed

lemma decimal4:
  fixes n :: nat assumes "n < 10000"
  shows "n = 1000 * (n div 1000 mod 10) + 100 * (n div 100 mod 10) + 10 * (n div 10 mod 10) + n mod 10"
proof -
  have e2: "n div 100 = n div 10 div 10" using div_mult2_eq[of n 10 10] by simp
  have e3: "n div 1000 = n div 100 div 10" using div_mult2_eq[of n 100 10] by simp
  have "n div 1000 < 10" using assms by simp
  then have 3: "n div 1000 mod 10 = n div 1000" by simp
  have a: "n = 10 * (n div 10) + n mod 10" by simp
  have b: "n div 10 = 10 * (n div 100) + n div 10 mod 10" unfolding e2 by simp
  have c: "n div 100 = 10 * (n div 1000) + n div 100 mod 10" unfolding e3 by simp
  define q1 q2 q3 where "q1 = n div 10" and "q2 = n div 100" and "q3 = n div 1000"
  define r0 r1 r2 where "r0 = n mod 10" and "r1 = n div 10 mod 10" and "r2 = n div 100 mod 10"
  have "n = 10 * q1 + r0" "q1 = 10 * q2 + r1" "q2 = 10 * q3 + r2"
    using a b c by (simp_all add: q1_def q2_def q3_def r0_def r1_def r2_def)
  then have "n = 1000 * q3 + 100 * r2 + 10 * r1 + r0" by simp
  then show ?thesis unfolding 3 q3_def r0_def r1_def r2_def .
qed

lemma digits2_less:
  fixes c d c' d' :: nat
  assumes "d < 10" "d' < 10" "10 * c + d < 10 * c' + d'"
  shows "c < c' \<or> c = c' \<and> d < d'"
  using assms by arith

lemma digits4_less:
  fixes a b c d a' b' c' d' :: nat
  assumes "b < 10" "c < 10" "d < 10" "b' < 10" "c' < 10" "d' < 10"
    "1000 * a + 100 * b + 10 * c + d < 1000 * a' + 100 * b' + 10 * c' + d'"
  shows "a < a' \<or> a = a' \<and> (b < b' \<or> b = b' \<and> (c < c' \<or> c = c' \<and> d < d'))"
  using assms by arith

lemma pad2_mono:
  assumes "n < n'" "n' < 100" shows "pad2 n < pad2 n'"
proof -
  have "n < 100" using assms by simp
  note e = decimal2[OF this, symmetric] decimal2[OF assms(2), symmetric]
  have "10 * (n div 10 mod 10) + n mod 10 < 10 * (n' div 10 mod 10) + n' mod 10"
    unfolding e by (rule assms(1))
  from digits2_less[OF _ _ this] show ?thesis
    by (simp add: pad2_def dig_less dig_eq)
qed

lemma pad4_mono:
  assumes "n < n'" "n' < 10000" shows "pad4 n < pad4 n'"
proof -
  have "n < 10000" using assms by simp
  note e = decimal4[OF this, symmetric] decimal4[OF assms(2), symmetric]
  have "1000 * (n div 1000 mod 10) + 100 * (n div 100 mod 10) + 10 * (n div 10 mod 10) + n mod 10
      < 1000 * (n' div 1000 mod 10) + 100 * (n' div 100 mod 10) + 10 * (n' div 10 mod 10) + n' mod 10"
    unfolding e by (rule assms(1))
  from digits4_less[OF _ _ _ _ _ _ this] show ?thesis
    by (simp add: pad4_def dig_less dig_eq)
qed

lemma number_of_digits_pad2: "n < 100 \<Longrightarrow> number_of_digits 0 (pad2 n) = Some n"
  using decimal2[of n] by (simp add: pad2_def digit_val_dig)

lemma number_of_digits_pad4: "n < 10000 \<Longrightarrow> number_of_digits 0 (pad4 n) = Some n"
  using decimal4[of n] by (simp add: pad4_def digit_val_dig)

lemma number_of_digits2D:
  assumes "number_of_digits 0 ds = Some n" "length ds = 2"
  shows "n < 100 \<and> ds = pad2 n"
proof -
  from assms(2) obtain c d where ds: "ds = [c, d]"
    by (auto simp: length_Suc_conv numeral_2_eq_2)
  from assms(1) obtain vc vd where v: "digit_val c = Some vc" "digit_val d = Some vd"
    and n: "n = 10 * vc + vd"
    by (auto simp: ds split: option.splits)
  from v[THEN digit_val_SomeD] n digits2_value[of vc vd] show ?thesis
    by (simp add: ds)
qed

lemma number_of_digits4D:
  assumes "number_of_digits 0 ds = Some n" "length ds = 4"
  shows "n < 10000 \<and> ds = pad4 n"
proof -
  from assms(2) obtain a b c d where ds: "ds = [a, b, c, d]"
    by (auto simp: length_Suc_conv eval_nat_numeral)
  from assms(1) obtain va vb vc vd where v: "digit_val a = Some va" "digit_val b = Some vb"
      "digit_val c = Some vc" "digit_val d = Some vd"
    and n: "n = 1000 * va + 100 * vb + 10 * vc + vd"
    by (auto simp: ds split: option.splits)
  from v[THEN digit_val_SomeD] n digits4_value[of va vb vc vd] show ?thesis
    by (simp add: ds)
qed

lemma length_pad [simp]: "length (pad2 n) = 2" "length (pad4 n) = 4" "length (pad6 n) = 6"
  by (simp_all add: pad2_def pad4_def pad6_def)

lemma iso_date_4digit:
  "year_4digit (y, m, d) \<Longrightarrow> iso_date (y, m, d) = pad4 (nat y) @ ''-'' @ pad2 (nat m) @ ''-'' @ pad2 (nat d)"
  by (simp add: iso_date_def year_4digit_def)

lemma parse_iso_date_iso_date:
  assumes "year_4digit c" shows "parse_iso_date (iso_date c) = Some c"
proof -
  obtain y m d where c: "c = (y, m, d)" by (cases c)
  from assms have r: "nat y < 10000" "nat m < 100" "nat d < 100" "0 \<le> y" "0 \<le> m" "0 \<le> d"
    by (auto simp: year_4digit_def c)
  have "parse_iso_date (pad4 (nat y) @ ''-'' @ pad2 (nat m) @ ''-'' @ pad2 (nat d)) = Some c"
    using r by (simp add: parse_iso_date_def nth_append number_of_digits_pad2 number_of_digits_pad4 c)
  then show ?thesis using assms by (simp add: c iso_date_4digit)
qed

lemma parse_iso_dateD:
  assumes "parse_iso_date s = Some c" shows "year_4digit c \<and> s = iso_date c"
proof -
  from assms have len: "length s = 10" and sep: "s ! 4 = CHR ''-''" "s ! 7 = CHR ''-''"
    by (auto simp: parse_iso_date_def split: if_splits)
  from assms len sep obtain y m d where
    p: "number_of_digits 0 (take 4 s) = Some y" "number_of_digits 0 (take 2 (drop 5 s)) = Some m"
       "number_of_digits 0 (drop 8 s) = Some d" and c: "c = (int y, int m, int d)"
    by (auto simp: parse_iso_date_def split: option.splits)
  have y: "y < 10000 \<and> take 4 s = pad4 y" using number_of_digits4D[OF p(1)] len by simp
  have m: "m < 100 \<and> take 2 (drop 5 s) = pad2 m" using number_of_digits2D[OF p(2)] len by simp
  have d: "d < 100 \<and> drop 8 s = pad2 d" using number_of_digits2D[OF p(3)] len by simp
  have "s = take 4 s @ [s ! 4] @ take 2 (drop 5 s) @ [s ! 7] @ drop 8 s"
    using len by (intro nth_equalityI) (auto simp: nth_append less_Suc_eq eval_nat_numeral)
  then have "s = pad4 y @ ''-'' @ pad2 m @ ''-'' @ pad2 d" using y m d sep by simp
  moreover have "year_4digit c" using y m d by (simp add: year_4digit_def c)
  ultimately show ?thesis by (simp add: c iso_date_4digit)
qed

lemma iso_date_mono:
  assumes "year_4digit c" "year_4digit c'" "civil_less c c'"
  shows "iso_date c < iso_date c'"
proof -
  obtain y m d where c: "c = (y, m, d)" by (cases c)
  obtain y' m' d' where c': "c' = (y', m', d')" by (cases c')
  from assms(1,2) have r: "0 \<le> y" "0 \<le> m" "0 \<le> d" "nat y' < 10000" "nat m' < 100" "nat d' < 100"
      "0 \<le> y'" "0 \<le> m'" "0 \<le> d'"
    by (auto simp: year_4digit_def c c')
  from assms(3) consider "y < y'" | "y = y'" "m < m'" | "y = y'" "m = m'" "d < d'"
    by (auto simp: civil_less_def c c')
  then have "pad4 (nat y) < pad4 (nat y') \<or> pad4 (nat y) = pad4 (nat y') \<and>
     (pad2 (nat m) < pad2 (nat m') \<or> pad2 (nat m) = pad2 (nat m') \<and> pad2 (nat d) < pad2 (nat d'))"
  proof cases
    case 1
    then have "pad4 (nat y) < pad4 (nat y')" using r by (intro pad4_mono) auto
    then show ?thesis ..
  next
    case 2
    then have "pad2 (nat m) < pad2 (nat m')" using r by (intro pad2_mono) auto
    with 2 show ?thesis by simp
  next
    case 3
    then have "pad2 (nat d) < pad2 (nat d')" using r by (intro pad2_mono) auto
    with 3 show ?thesis by simp
  qed
  then show ?thesis
    using assms(1,2) by (simp add: c c' iso_date_4digit append_less_iff)
qed

lemma iso_date_negative_year:
  assumes "y < 0" "year_4digit c'"
  shows "iso_date (y, m, d) < iso_date c'"
proof -
  obtain y' m' d' where c': "c' = (y', m', d')" by (cases c')
  have "CHR ''-'' < dig k" if "k < 10" for k
    using that by (simp add: dig_def less_char_def)
  then have "CHR ''-'' < dig (nat y' div 1000 mod 10)" by simp
  then show ?thesis
    using assms by (simp add: c' iso_date_4digit) (simp add: iso_date_def pad4_def)
qed


lemma valid_civil_2digit: "valid_civil (y, m, d) \<Longrightarrow> 0 \<le> m \<and> m \<le> 99 \<and> 0 \<le> d \<and> d \<le> 99"
  by (auto simp: valid_civil_def days_in_month_def split: if_splits)

lemma valid_civil_year_4digit:
  "valid_civil (y, m, d) \<Longrightarrow> 0 \<le> y \<Longrightarrow> y \<le> 9999 \<Longrightarrow> year_4digit (y, m, d)"
  using valid_civil_2digit[of y m d] by (simp add: year_4digit_def)

lemma MS_PER_DAY_pos: "0 < MS_PER_DAY"
  by (simp add: MS_PER_DAY_def)

lemma getDateFromString_SomeD:
  assumes "getDateFromString s = Some t"
  obtains c where "valid_civil c" "year_4digit c" "s = iso_date c" "t = days_from_civil c * MS_PER_DAY"
  using assms parse_iso_dateD[of s]
  by (auto simp: getDateFromString_def split: option.splits if_splits)

lemma getDateFromString_iso_date:
  "valid_civil c \<Longrightarrow> year_4digit c \<Longrightarrow>
     getDateFromString (iso_date c) = Some (days_from_civil c * MS_PER_DAY)"
  by (simp add: getDateFromString_def parse_iso_date_iso_date)

text \<open>On canonical strings the order of the strings is the order of the days.\<close>

lemma canonical_less_iff:
  assumes "getDateFromString s = Some t" "getDateFromString s' = Some t'"
  shows "s < s' \<longleftrightarrow> t < t'"
proof -
  from assms(1) obtain c where c: "valid_civil c" "year_4digit c" "s = iso_date c"
      "t = days_from_civil c * MS_PER_DAY" by (rule getDateFromString_SomeD)
  from assms(2) obtain c' where c': "valid_civil c'" "year_4digit c'" "s' = iso_date c'"
      "t' = days_from_civil c' * MS_PER_DAY" by (rule getDateFromString_SomeD)
  from civil_less_linear[of c c'] show ?thesis
  proof (elim disjE)
    assume l: "civil_less c c'"
    have "s < s'" unfolding c c' by (rule iso_date_mono[OF c(2) c'(2) l])
    moreover have "t < t'" unfolding c c'
      using days_from_civil_mono[OF c(1) c'(1) l] MS_PER_DAY_pos by simp
    ultimately show ?thesis by simp
  next
    assume "c = c'"
    then show ?thesis by (simp add: c c')
  next
    assume l: "civil_less c' c"
    have "s' < s" unfolding c c' by (rule iso_date_mono[OF c'(2) c(2) l])
    moreover have "t' < t" unfolding c c'
      using days_from_civil_mono[OF c'(1) c(1) l] MS_PER_DAY_pos by simp
    ultimately show ?thesis by simp
  qed
qed

lemma canonical_eq_iff:
  assumes "getDateFromString s = Some t" "getDateFromString s' = Some t'"
  shows "s = s' \<longleftrightarrow> t = t'"
  using canonical_less_iff[OF assms] canonical_less_iff[OF assms(2,1)] assms
  by (metis less_irrefl linorder_neqE option.inject)

lemma canonical_le_iff:
  assumes "getDateFromString s = Some t" "getDateFromString s' = Some t'"
  shows "s \<le> s' \<longleftrightarrow> t \<le> t'"
  using canonical_less_iff[OF assms(2,1)] by (simp add: not_less[symmetric])

lemma getDateFromString_multiple:
  "getDateFromString s = Some t \<Longrightarrow> t = (t div MS_PER_DAY) * MS_PER_DAY"
  by (erule getDateFromString_SomeD) (use MS_PER_DAY_pos in simp)


lemma getDateString_4digit:
  assumes "civil_from_days (t div MS_PER_DAY) = (y, m, d)" "0 \<le> y" "y \<le> 9999"
  shows "getDateFromString (getDateString t) = Some ((t div MS_PER_DAY) * MS_PER_DAY)"
proof -
  have v: "valid_civil (y, m, d)" and e: "days_from_civil (y, m, d) = t div MS_PER_DAY"
    using civil_from_days_correct[of "t div MS_PER_DAY"] by (simp_all add: assms(1))
  have "year_4digit (y, m, d)" using v assms(2,3) by (simp add: valid_civil_year_4digit)
  from getDateFromString_iso_date[OF v this] show ?thesis
    by (simp add: getDateString_def assms(1) e)
qed

text \<open>A time value on an earlier day than a canonical date is written as a smaller string.\<close>

lemma getDateString_before:
  assumes "getDateFromString s = Some t'" "t div MS_PER_DAY < t' div MS_PER_DAY"
  shows "getDateString t < s"
proof -
  from assms(1) obtain c' where c': "valid_civil c'" "year_4digit c'" "s = iso_date c'"
      "t' = days_from_civil c' * MS_PER_DAY" by (rule getDateFromString_SomeD)
  obtain y m d where cd: "civil_from_days (t div MS_PER_DAY) = (y, m, d)"
    by (cases "civil_from_days (t div MS_PER_DAY)")
  have v: "valid_civil (y, m, d)" and e: "days_from_civil (y, m, d) = t div MS_PER_DAY"
    using civil_from_days_correct[of "t div MS_PER_DAY"] by (simp_all add: cd)
  have "t' div MS_PER_DAY = days_from_civil c'" using MS_PER_DAY_pos by (simp add: c')
  with assms(2) have lt: "days_from_civil (y, m, d) < days_from_civil c'" by (simp add: e)
  have l: "civil_less (y, m, d) c'"
    using civil_less_linear[of "(y, m, d)" c'] days_from_civil_mono[OF c'(1) v] lt by auto
  show ?thesis
  proof (cases "y < 0")
    case True
    then show ?thesis unfolding getDateString_def cd c' by (rule iso_date_negative_year[OF _ c'(2)])
  next
    case False
    moreover have "y \<le> 9999" using l c'(2) by (cases c') (auto simp: civil_less_def year_4digit_def)
    ultimately have "year_4digit (y, m, d)" using v by (simp add: valid_civil_year_4digit)
    from iso_date_mono[OF this c'(2) l] show ?thesis by (simp add: getDateString_def cd c')
  qed
qed

section \<open>Properties of the script\<close>

subsection \<open>Range validation and day differences\<close>

lemma calculateDaysDifference_SomeD:
  assumes "calculateDaysDifference a b = Some d"
  obtains s e where "getDateFromString a = Some s" "getDateFromString b = Some e"
    "e - s = d * MS_PER_DAY"
proof -
  from assms obtain s e where se: "getDateFromString a = Some s" "getDateFromString b = Some e"
    and d: "d = (e - s) div MS_PER_DAY"
    by (auto simp: calculateDaysDifference_def split: option.splits)
  define ds de where "ds = s div MS_PER_DAY" and "de = e div MS_PER_DAY"
  have m: "s = ds * MS_PER_DAY" "e = de * MS_PER_DAY"
    using getDateFromString_multiple[OF se(1)] getDateFromString_multiple[OF se(2)]
    by (simp_all add: ds_def de_def)
  have "e - s = (de - ds) * MS_PER_DAY" by (simp add: m algebra_simps)
  moreover from this have "d = de - ds" using MS_PER_DAY_pos by (simp add: d)
  ultimately show ?thesis using se that by simp
qed

lemma number_to_string_90: "number_to_string (Some 90) = ''90''"
  by code_simp

text \<open>
  C6.  When the end date is not after the start date, that is when the day difference
  from start to end is less than 1, \<open>validateDateRange\<close> returns invalid with the message
  of the order check; in particular it rejects start 2024-01-01, end 2024-01-01.
\<close>

theorem C6_invalid_order:
  "(calculateDaysDifference startDateStr endDateStr = Some d \<longrightarrow> d < 1 \<longrightarrow>
      validateDateRange startDateStr endDateStr
        = \<lparr>valid = False, error = ''End date must be after start date''\<rparr>)
   \<and> validateDateRange ''2024-01-01'' ''2024-01-01''
        = \<lparr>valid = False, error = ''End date must be after start date''\<rparr>"
proof (intro conjI impI)
  assume a: "calculateDaysDifference startDateStr endDateStr = Some d" and d: "d < 1"
  from a obtain s e where se: "getDateFromString startDateStr = Some s"
      "getDateFromString endDateStr = Some e" "e - s = d * MS_PER_DAY"
    by (rule calculateDaysDifference_SomeD)
  have "d * MS_PER_DAY \<le> 0" using d MS_PER_DAY_pos by (simp add: mult_le_0_iff)
  then have "e \<le> s" using se(3) by simp
  then show "validateDateRange startDateStr endDateStr
        = \<lparr>valid = False, error = ''End date must be after start date''\<rparr>"
    by (simp add: validateDateRange_def se js_le_def)
next
  show "validateDateRange ''2024-01-01'' ''2024-01-01''
        = \<lparr>valid = False, error = ''End date must be after start date''\<rparr>"
    by code_simp
qed

theorem C6_invalid_order_witness:
  "calculateDaysDifference ''2024-01-10'' ''2024-01-03'' = Some (- 7) \<and> (- 7 :: int) < 1
   \<and> validateDateRange ''2024-01-10'' ''2024-01-03''
        = \<lparr>valid = False, error = ''End date must be after start date''\<rparr>"
proof -
  have a: "calculateDaysDifference ''2024-01-10'' ''2024-01-03'' = Some (- 7)" by code_simp
  show ?thesis
    using C6_invalid_order[of "''2024-01-10''" "''2024-01-03''" "- 7"] a by simp
qed

text \<open>
  C5.  When the day difference from start to end exceeds the maximum of 90 days,
  \<open>validateDateRange\<close> returns invalid with the duration message, which reports the
  computed difference; start 2024-01-01 with end 2024-06-01 is rejected with a range of 152 days.
\<close>

theorem C5_duration_exceeded:
  "(calculateDaysDifference startDateStr endDateStr = Some d \<longrightarrow> d > MAX_HABIT_DURATION_DAYS \<longrightarrow>
      validateDateRange startDateStr endDateStr
        = \<lparr>valid = False, error = ''Maximum duration is 90 days. Your range is ''
             @ number_to_string (Some d) @ '' days.''\<rparr>)
   \<and> calculateDaysDifference ''2024-01-01'' ''2024-06-01'' = Some 152
   \<and> validateDateRange ''2024-01-01'' ''2024-06-01''
        = \<lparr>valid = False, error = ''Maximum duration is 90 days. Your range is 152 days.''\<rparr>"
proof (intro conjI impI)
  assume a: "calculateDaysDifference startDateStr endDateStr = Some d"
    and d: "d > MAX_HABIT_DURATION_DAYS"
  from a obtain s e where se: "getDateFromString startDateStr = Some s"
      "getDateFromString endDateStr = Some e" "e - s = d * MS_PER_DAY"
    by (rule calculateDaysDifference_SomeD)
  have "0 < d * MS_PER_DAY" using d MS_PER_DAY_pos by (simp add: MAX_HABIT_DURATION_DAYS_def)
  then have "\<not> e \<le> s" using se(3) by simp
  then show "validateDateRange startDateStr endDateStr
        = \<lparr>valid = False, error = ''Maximum duration is 90 days. Your range is ''
             @ number_to_string (Some d) @ '' days.''\<rparr>"
    using d by (simp add: validateDateRange_def se js_le_def js_gt_def a number_to_string_90[unfolded MAX_HABIT_DURATION_DAYS_def[symmetric]])
next
  show "calculateDaysDifference ''2024-01-01'' ''2024-06-01'' = Some 152" by code_simp
  show "validateDateRange ''2024-01-01'' ''2024-06-01''
        = \<lparr>valid = False, error = ''Maximum duration is 90 days. Your range is 152 days.''\<rparr>"
    by code_simp
qed

theorem C5_duration_exceeded_witness:
  "calculateDaysDifference ''2024-01-01'' ''2024-04-01'' = Some 91 \<and> 91 > MAX_HABIT_DURATION_DAYS
   \<and> validateDateRange ''2024-01-01'' ''2024-04-01''
        = \<lparr>valid = False, error = ''Maximum duration is 90 days. Your range is 91 days.''\<rparr>"
proof -
  have a: "calculateDaysDifference ''2024-01-01'' ''2024-04-01'' = Some 91" by code_simp
  have b: "number_to_string (Some 91) = ''91''" by code_simp
  show ?thesis
    using C5_duration_exceeded[of "''2024-01-01''" "''2024-04-01''" 91] a b
    by (simp add: MAX_HABIT_DURATION_DAYS_def)
qed

subsection \<open>Status\<close>

lemma calculateDaysDifference_self:
  "canonical s \<Longrightarrow> calculateDaysDifference s s = Some 0"
  by (auto simp: canonical_def calculateDaysDifference_def)

lemma number_to_string_1: "number_to_string (Some 1) = ''1''"
  by code_simp

text \<open>
  C7, as amended.  The status is not-started exactly when today is before the start date,
  active exactly when today lies between start date and end date, both included, and
  completed exactly when today is after the end date and not before the start date; for a
  habit whose start date is not after its end date, completed exactly when today is after
  the end date.  In the active state the message reports the day difference from today to
  the end date plus one, in the singular exactly when that number is 1; when today is the end
  date of such a habit the status is active and the message is "1 day remaining".
\<close>

theorem C7_status:
  "(getHabitStatus now h = ''not-started'' \<longleftrightarrow> getTodayDateString now < startDate h)
   \<and> (getHabitStatus now h = ''active'' \<longleftrightarrow>
        startDate h \<le> getTodayDateString now \<and> getTodayDateString now \<le> endDate h)
   \<and> (getHabitStatus now h = ''completed'' \<longleftrightarrow>
        endDate h < getTodayDateString now \<and> \<not> getTodayDateString now < startDate h)
   \<and> (startDate h \<le> endDate h \<longrightarrow>
        (getHabitStatus now h = ''completed'' \<longleftrightarrow> endDate h < getTodayDateString now))
   \<and> (getHabitStatus now h = ''active'' \<longrightarrow>
        calculateDaysDifference (getTodayDateString now) (endDate h) = Some d \<longrightarrow>
        getStatusMessage toLocaleDateString now h
          = number_to_string (Some (d + 1))
            @ (if d + 1 = 1 then '' day remaining'' else '' days remaining''))
   \<and> (getTodayDateString now = endDate h \<longrightarrow> canonical (endDate h) \<longrightarrow>
        startDate h \<le> endDate h \<longrightarrow>
        getHabitStatus now h = ''active''
        \<and> getStatusMessage toLocaleDateString now h = ''1 day remaining'')"
proof (intro conjI impI)
  show "getHabitStatus now h = ''not-started'' \<longleftrightarrow> getTodayDateString now < startDate h"
    by (simp add: getHabitStatus_def Let_def)
  show "getHabitStatus now h = ''active'' \<longleftrightarrow>
        startDate h \<le> getTodayDateString now \<and> getTodayDateString now \<le> endDate h"
    by (auto simp: getHabitStatus_def Let_def)
  show "getHabitStatus now h = ''completed'' \<longleftrightarrow>
        endDate h < getTodayDateString now \<and> \<not> getTodayDateString now < startDate h"
    by (auto simp: getHabitStatus_def Let_def)
  show "getHabitStatus now h = ''completed'' \<longleftrightarrow> endDate h < getTodayDateString now"
    if "startDate h \<le> endDate h"
    using that by (auto simp: getHabitStatus_def Let_def)
  show "getStatusMessage toLocaleDateString now h
          = number_to_string (Some (d + 1))
            @ (if d + 1 = 1 then '' day remaining'' else '' days remaining'')"
    if "getHabitStatus now h = ''active''"
      "calculateDaysDifference (getTodayDateString now) (endDate h) = Some d"
    using that by (simp add: getStatusMessage_def Let_def)
  assume a: "getTodayDateString now = endDate h" "canonical (endDate h)" "startDate h \<le> endDate h"
  then show act: "getHabitStatus now h = ''active''"
    by (simp add: getHabitStatus_def Let_def)
  show "getStatusMessage toLocaleDateString now h = ''1 day remaining''"
    using a act calculateDaysDifference_self[OF a(2)]
    by (simp add: getStatusMessage_def number_to_string_1 Let_def)
qed

theorem C7_status_witness:
  "startDate h_scenario \<le> endDate h_scenario
   \<and> getHabitStatus 1704844800000 h_scenario = ''active''
   \<and> calculateDaysDifference (getTodayDateString 1704844800000) (endDate h_scenario) = Some 0
   \<and> getTodayDateString 1704844800000 = endDate h_scenario
   \<and> canonical (endDate h_scenario)
   \<and> \<not> endDate h_scenario < getTodayDateString 1704844800000
   \<and> getStatusMessage (\<lambda>d. []) 1704844800000 h_scenario = ''1 day remaining''"
proof -
  have a: "startDate h_scenario \<le> endDate h_scenario" by code_simp
  have b: "getTodayDateString 1704844800000 = endDate h_scenario" by code_simp
  have c: "canonical (endDate h_scenario)" by code_simp
  have d: "calculateDaysDifference (getTodayDateString 1704844800000) (endDate h_scenario) = Some 0"
    by code_simp
  show ?thesis
    using C7_status[of 1704844800000 h_scenario 0 "\<lambda>d. []"] a b c d by simp
qed

text \<open>
  C7 as stated fails for a record whose end date is before its start date, which the
  classifier does not exclude: the test for not-started comes first.  With start date
  2024-01-10 and end date 2024-01-01, on 2024-01-05 today is after the end date and the status
  is not-started, not completed.
\<close>

theorem C7_inverted_range_counterexample:
  "getTodayDateString 1704412800000 = ''2024-01-05''
   \<and> endDate h_inverted < getTodayDateString 1704412800000
   \<and> getHabitStatus 1704412800000 h_inverted = ''not-started''
   \<and> getHabitStatus 1704412800000 h_inverted \<noteq> ''completed''"
  by code_simp

subsection \<open>Toggling\<close>

lemma indexOf_notin: "x \<notin> set xs \<Longrightarrow> indexOf xs x = - 1"
  by (induction xs) auto

lemma indexOf_nonneg: "x \<in> set xs \<Longrightarrow> 0 \<le> indexOf xs x"
  by (induction xs) (auto simp: Let_def)

lemma indexOf_range: "- 1 \<le> indexOf xs x"
  by (induction xs) (auto simp: Let_def)

lemma splice1_indexOf: "x \<in> set xs \<Longrightarrow> splice1 xs (indexOf xs x) = remove1 x xs"
proof (induction xs)
  case Nil
  then show ?case by simp
next
  case (Cons y ys)
  show ?case
  proof (cases "y = x")
    case True
    then show ?thesis by (simp add: splice1_def)
  next
    case False
    with Cons.prems have m: "x \<in> set ys" by simp
    from indexOf_nonneg[OF m] have "nat (indexOf ys x + 1) = Suc (nat (indexOf ys x))" by simp
    with Cons.IH[OF m] False indexOf_nonneg[OF m] show ?thesis
      by (simp add: splice1_def Let_def)
  qed
qed

lemma toggle_completion_Dates:
  "completionDates h = Dates ds \<Longrightarrow>
     toggle_completion dateStr h
       = h\<lparr>completionDates := Dates (if dateStr \<in> set ds then remove1 dateStr ds else ds @ [dateStr])\<rparr>"
  using indexOf_nonneg[of dateStr ds] indexOf_notin[of dateStr ds] splice1_indexOf[of dateStr ds]
  by (auto simp: toggle_completion_def Let_def)

lemma toggle_completion_not_array:
  "\<not> isArray (completionDates h) \<Longrightarrow>
     toggle_completion dateStr h = h\<lparr>completionDates := Dates [dateStr]\<rparr>"
  by (simp add: toggle_completion_def)

lemma id_toggle_completion [simp]: "id' (toggle_completion dateStr h) = id' h"
  by (simp add: toggle_completion_def Let_def)

lemma find_update_first:
  assumes "\<And>x. P x \<Longrightarrow> P (f x)"
  shows "List.find P (update_first P f xs) = map_option f (List.find P xs)"
  using assms by (induction xs) auto

lemma find_toggleHabitCompletion:
  "List.find (\<lambda>h. id' h = habitId) (toggleHabitCompletion habitId dateStr habits)
     = map_option (toggle_completion dateStr) (List.find (\<lambda>h. id' h = habitId) habits)"
  by (auto simp: toggleHabitCompletion_def find_update_first split: option.splits)

lemma count_list_remove1:
  "x \<in> set xs \<Longrightarrow> count_list (remove1 x xs) x = count_list xs x - 1"
  by (induction xs) auto

text \<open>
  C10.  When the date occurs more than once in the completion dates of the habit, one
  call of \<open>toggleHabitCompletion\<close> removes the first occurrence only: the count of the
  date goes down by one and the date is still completed afterwards.
\<close>

theorem C10_toggle_duplicate:
  assumes "List.find (\<lambda>h. id' h = habitId) habits = Some h"
    and "completionDates h = Dates ds"
    and "1 < count_list ds dateStr"
  shows "List.find (\<lambda>h. id' h = habitId) (toggleHabitCompletion habitId dateStr habits)
           = Some (h\<lparr>completionDates := Dates (remove1 dateStr ds)\<rparr>)
     \<and> count_list (remove1 dateStr ds) dateStr = count_list ds dateStr - 1
     \<and> isHabitCompletedOnDate (Some h) dateStr
     \<and> isHabitCompletedOnDate (Some (h\<lparr>completionDates := Dates (remove1 dateStr ds)\<rparr>)) dateStr"
proof -
  from assms(3) have m: "dateStr \<in> set ds"
    by (metis count_list_0_iff not_less_zero)
  have c: "count_list (remove1 dateStr ds) dateStr = count_list ds dateStr - 1"
    by (rule count_list_remove1[OF m])
  with assms(3) have "0 < count_list (remove1 dateStr ds) dateStr" by simp
  then have m': "dateStr \<in> set (remove1 dateStr ds)"
    by (metis count_list_0_iff less_irrefl)
  show ?thesis
    using m m' c assms(1,2)
    by (simp add: find_toggleHabitCompletion toggle_completion_Dates isHabitCompletedOnDate_def)
qed

theorem C10_toggle_duplicate_witness:
  "List.find (\<lambda>h. id' h = ''1704067200000'') [h_duplicate] = Some h_duplicate
   \<and> completionDates h_duplicate = Dates [''2024-01-01'', ''2024-01-02'', ''2024-01-02'', ''2024-01-03'']
   \<and> 1 < count_list [''2024-01-01'', ''2024-01-02'', ''2024-01-02'', ''2024-01-03''] ''2024-01-02''
   \<and> List.find (\<lambda>h. id' h = ''1704067200000'')
        (toggleHabitCompletion ''1704067200000'' ''2024-01-02'' [h_duplicate])
       = Some (h_duplicate\<lparr>completionDates := Dates [''2024-01-01'', ''2024-01-02'', ''2024-01-03'']\<rparr>)
   \<and> isHabitCompletedOnDate
        (Some (h_duplicate\<lparr>completionDates := Dates [''2024-01-01'', ''2024-01-02'', ''2024-01-03'']\<rparr>))
        ''2024-01-02''"
  using C10_toggle_duplicate[of "''1704067200000''" "[h_duplicate]" h_duplicate
      "[''2024-01-01'', ''2024-01-02'', ''2024-01-02'', ''2024-01-03'']" "''2024-01-02''"]
  by (simp add: h_duplicate_def)

subsection \<open>Reading the completion dates\<close>

lemma isHabitCompletedOnDate_elements:
  "isHabitCompletedOnDate (Some h) d \<longleftrightarrow> d \<in> set (elements (completionDates h))"
  by (cases "completionDates h") (simp_all add: isHabitCompletedOnDate_def)

lemma calculateTotalCompleted_elements:
  "calculateTotalCompleted h = length (filter (isDateWithinRange h) (elements (completionDates h)))"
  by (cases "completionDates h") (simp_all add: calculateTotalCompleted_def)

subsection \<open>Completion percentage\<close>

text \<open>
  C3.  The completion percentage at a habit of 40 days with 23 completed days in range:
  the quotient 23 / 40 and its product with 100 are rounded to doubles, the product is
  just below 57.5, and \<open>calculateCompletionPercentage\<close> returns 57, while rounding
  the exact value 100 * 23 / 40 = 57.5 gives 58.
\<close>

theorem C3_percentage_23_of_40:
  "calculateDaysDifference (startDate h_forty) (endDate h_forty) = Some 39
   \<and> calculateTotalCompleted h_forty = 23
   \<and> calculateCompletionPercentage h_forty = Some 57
   \<and> Math_round (100 * 23 / 40) = 58"
  by code_simp

theorem C3_percentage_23_of_40_witness:
  "calculateCompletionPercentage h_forty = Some 57
   \<and> calculateCompletionPercentage h_forty \<noteq> Some (Math_round (100 * 23 / 40))"
  using C3_percentage_23_of_40 by simp

text \<open>
  Apart from the rounding, the percentage is as described: it lies between 0 and 100, and
  it is a number whenever the two dates of the habit are canonical.
\<close>

lemma pow2_pos: "0 < pow2 e"
  by (simp add: pow2_def)

lemma round_ties_even_nonneg: "0 \<le> x \<Longrightarrow> 0 \<le> round_ties_even x"
  by (auto simp: round_ties_even_def Let_def intro: add_nonneg_nonneg)

lemma binary64_nonneg:
  assumes "0 \<le> x" shows "0 \<le> binary64 x"
proof (cases "x = 0")
  case True
  then show ?thesis by (simp add: binary64_def)
next
  case False
  with assms have "0 < x" by simp
  then have "0 \<le> round_ties_even (x / pow2 e)" for e
    using pow2_pos[of e] by (intro round_ties_even_nonneg) simp
  then have "0 \<le> (of_int (round_ties_even (x / pow2 e)) :: rat) * pow2 e" for e
    using pow2_pos[of e] by (intro mult_nonneg_nonneg) simp_all
  then show ?thesis
    using \<open>0 < x\<close> by (simp add: binary64_def Let_def split: prod.splits)
qed

lemma Math_round_nonneg: "0 \<le> x \<Longrightarrow> 0 \<le> Math_round x"
  by (simp add: Math_round_def)

lemma no_date_in_inverted_range:
  assumes "calculateDaysDifference (startDate h) (endDate h) = Some d" "d < 0"
  shows "calculateTotalCompleted h = 0"
proof -
  from assms(1) obtain s e where se: "getDateFromString (startDate h) = Some s"
      "getDateFromString (endDate h) = Some e" "e - s = d * MS_PER_DAY"
    by (rule calculateDaysDifference_SomeD)
  have "d * MS_PER_DAY < 0" using assms(2) MS_PER_DAY_pos by (simp add: mult_less_0_iff)
  then have "e < s" using se(3) by simp
  then have "endDate h < startDate h" using canonical_less_iff[OF se(2,1)] by simp
  then have "\<not> isDateWithinRange h x" for x
    by (auto simp: isDateWithinRange_def)
  then show ?thesis by (simp add: calculateTotalCompleted_elements)
qed

lemma calculateCompletionPercentage_range:
  assumes "calculateCompletionPercentage h = Some p"
  shows "0 \<le> p \<and> p \<le> 100"
proof -
  from assms obtain d where d: "calculateDaysDifference (startDate h) (endDate h) = Some d"
    by (auto simp: calculateCompletionPercentage_def split: option.splits)
  define q :: rat where "q = of_nat (calculateTotalCompleted h) / of_int (d + 1)"
  have p: "p = (if d + 1 = 0 then 0 else min (Math_round (binary64 (binary64 q * 100))) 100)"
    using assms by (simp add: calculateCompletionPercentage_def d Let_def q_def split: if_splits)
  have "0 \<le> q"
  proof (cases "d < 0")
    case True
    from no_date_in_inverted_range[OF d True] show ?thesis by (simp add: q_def)
  next
    case False
    then show ?thesis by (simp add: q_def)
  qed
  then have "0 \<le> binary64 q * 100" using binary64_nonneg[of q] by simp
  then have "0 \<le> Math_round (binary64 (binary64 q * 100))"
    by (intro Math_round_nonneg binary64_nonneg)
  then show ?thesis by (simp add: p)
qed

lemma calculateCompletionPercentage_canonical:
  assumes "canonical (startDate h)" "canonical (endDate h)"
  shows "\<exists>p. calculateCompletionPercentage h = Some p"
  using assms
  by (auto simp: canonical_def calculateCompletionPercentage_def calculateDaysDifference_def Let_def)

subsection \<open>Missing completion dates\<close>

text \<open>
  C9.  For a habit record whose \<^verbatim>\<open>completionDates\<close> field is missing or is not an array,
  the statistics functions return defaults instead of failing: \<open>isHabitCompletedOnDate\<close>
  returns false, and \<open>calculateLongestStreak\<close> and \<open>calculateTotalCompleted\<close> return 0.
\<close>

theorem C9_missing_completionDates:
  assumes "completionDates h = Missing \<or> completionDates h = Other b"
  shows "isHabitCompletedOnDate (Some h) dateStr = False
    \<and> calculateLongestStreak h = 0 \<and> calculateTotalCompleted h = 0"
  using assms
  by (auto simp: isHabitCompletedOnDate_def calculateLongestStreak_def calculateTotalCompleted_def)

theorem C9_missing_completionDates_witness:
  "isHabitCompletedOnDate
      (Some \<lparr>id' = ''1'', name = ''Gym'', startDate = ''2024-01-01'', endDate = ''2024-01-10'',
        createdAt = ''2024-01-01T08:00:00.000Z'', completionDates = Missing\<rparr>) ''2024-01-02'' = False
   \<and> calculateLongestStreak
      \<lparr>id' = ''1'', name = ''Gym'', startDate = ''2024-01-01'', endDate = ''2024-01-10'',
        createdAt = ''2024-01-01T08:00:00.000Z'', completionDates = Missing\<rparr> = 0
   \<and> calculateTotalCompleted
      \<lparr>id' = ''1'', name = ''Gym'', startDate = ''2024-01-01'', endDate = ''2024-01-10'',
        createdAt = ''2024-01-01T08:00:00.000Z'', completionDates = Missing\<rparr> = 0"
  using C9_missing_completionDates
    [of "\<lparr>id' = ''1'', name = ''Gym'', startDate = ''2024-01-01'', endDate = ''2024-01-10'',
        createdAt = ''2024-01-01T08:00:00.000Z'', completionDates = Missing\<rparr>" True "''2024-01-02''"]
  by simp

subsection \<open>The longest streak\<close>

lemma spec_runs_Cons: "\<exists>r rs. spec_runs (x # xs) = (x # r) # rs"
proof (induction xs arbitrary: x)
  case Nil
  show ?case by simp
next
  case (Cons y zs)
  from Cons[of y] obtain r rs where "spec_runs (y # zs) = (y # r) # rs" by blast
  then show ?case by simp
qed

lemma concat_spec_runs: "concat (spec_runs xs) = xs"
proof (induction xs rule: spec_runs.induct)
  case (3 x y zs)
  from spec_runs_Cons[of y zs] obtain r rs where r: "spec_runs (y # zs) = (y # r) # rs" by blast
  with 3 show ?case by (auto split: list.splits)
qed simp_all

lemma Max_insert_set: "Max (insert n (set ns)) = max n (foldr max ns 0)" for n :: nat
proof (induction ns arbitrary: n)
  case Nil
  show ?case by simp
next
  case (Cons a ns)
  have "Max (insert n (insert a (set ns))) = max n (Max (insert a (set ns)))"
    by (rule Max_insert) simp_all
  then show ?case by (simp add: Cons)
qed

lemma Max_set_Cons: "Max (set (n # ns)) = max n (foldr max ns 0)" for n :: nat
  using Max_insert_set[of n ns] by simp

lemma sort_eq_Nil_iff: "sort xs = [] \<longleftrightarrow> xs = []"
  by (metis length_0_conv length_sort)

lemma longest_scan_runs:
  assumes "1 \<le> c" "c \<le> m" "spec_runs (x # xs) = r # rs"
  shows "longest_scan (x # xs) m c = max m (max (c - 1 + length r) (foldr max (map length rs) 0))"
  using assms
proof (induction xs arbitrary: x m c r rs)
  case Nil
  then show ?case by auto
next
  case (Cons y zs)
  from spec_runs_Cons[of y zs] obtain r' rs' where r': "spec_runs (y # zs) = (y # r') # rs'"
    by blast
  show ?case
  proof (cases "dayDiff_is_1 x y")
    case True
    with Cons.prems r' have r: "r = x # y # r'" "rs = rs'" by simp_all
    define F where "F = foldr max (map length rs') 0"
    have "longest_scan (y # zs) (max m (c + 1)) (c + 1)
        = max (max m (c + 1)) (max (c + 1 - 1 + length (y # r')) F)"
      unfolding F_def by (rule Cons.IH[OF _ _ r']) simp_all
    moreover have "max (max m (c + 1)) (max (c + 1 - 1 + length (y # r')) F)
        = max m (max (c - 1 + length (x # y # r')) F)"
      using Cons.prems(1) by (simp add: max_def)
    ultimately show ?thesis using True by (simp add: r F_def)
  next
    case False
    with Cons.prems r' have r: "r = [x]" "rs = (y # r') # rs'" by simp_all
    have "longest_scan (y # zs) m 1
        = max m (max (1 - 1 + length (y # r')) (foldr max (map length rs') 0))"
      by (rule Cons.IH[OF _ _ r']) (use Cons.prems in simp_all)
    then show ?thesis using False Cons.prems(1,2) by (simp add: r)
  qed
qed

lemma calculateLongestStreak_alt:
  "calculateLongestStreak h =
     (let sortedDates = sort (filter (isDateWithinRange h) (elements (completionDates h)))
      in if sortedDates = [] then 0 else longest_scan sortedDates 1 1)"
proof (cases "completionDates h")
  case (Dates ds)
  then show ?thesis by (simp add: calculateLongestStreak_def Let_def sort_eq_Nil_iff)
qed (simp_all add: calculateLongestStreak_def)

lemma longest_scan_ge: "m \<le> longest_scan xs m c"
  by (induction xs m c rule: longest_scan.induct) (auto intro: le_trans[OF max.cobounded1])

text \<open>
  C8.  \<open>calculateLongestStreak\<close> filters the completion dates to those in range, sorts them
  and scans the sorted dates for maximal runs in which adjacent dates differ by exactly one
  day (any other difference starts a new run of length 1): its result is the greatest
  length of these runs.  It is 0 when no date is in range and at least 1 otherwise.
\<close>

theorem C8_longest_streak_runs:
  "calculateLongestStreak h = spec_longest_streak h
   \<and> concat (spec_runs (sort (filter (isDateWithinRange h) (elements (completionDates h)))))
       = sort (filter (isDateWithinRange h) (elements (completionDates h)))
   \<and> (filter (isDateWithinRange h) (elements (completionDates h)) = [] \<longrightarrow>
        calculateLongestStreak h = 0)
   \<and> (filter (isDateWithinRange h) (elements (completionDates h)) \<noteq> [] \<longrightarrow>
        1 \<le> calculateLongestStreak h)"
proof -
  define S where "S = sort (filter (isDateWithinRange h) (elements (completionDates h)))"
  have e: "S = [] \<longleftrightarrow> filter (isDateWithinRange h) (elements (completionDates h)) = []"
    unfolding S_def by (rule sort_eq_Nil_iff)
  have 1: "calculateLongestStreak h = (if S = [] then 0 else longest_scan S 1 1)"
    by (simp add: calculateLongestStreak_alt S_def Let_def)
  have 2: "longest_scan S 1 1 = Max (set (map length (spec_runs S)))" if "S \<noteq> []"
  proof -
    from that obtain x xs where S: "S = x # xs" by (cases S) auto
    from spec_runs_Cons[of x xs] obtain r rs where r: "spec_runs (x # xs) = (x # r) # rs" by blast
    from longest_scan_runs[OF _ _ r, of 1 1] show ?thesis
      by (simp add: S r Max_set_Cons del: set_simps list.set)
  qed
  have "calculateLongestStreak h = spec_longest_streak h"
    using 1 2 by (simp add: spec_longest_streak_def S_def[symmetric] Let_def)
  moreover have "1 \<le> calculateLongestStreak h" if "S \<noteq> []"
    using that 1 longest_scan_ge[of 1 S 1] by simp
  ultimately show ?thesis
    using 1 e concat_spec_runs[of S] unfolding S_def[symmetric] by auto
qed

theorem C8_longest_streak_runs_witness:
  "filter (isDateWithinRange h_scenario) (elements (completionDates h_scenario)) \<noteq> []
   \<and> spec_runs (sort (filter (isDateWithinRange h_scenario) (elements (completionDates h_scenario))))
       = [[''2024-01-01'', ''2024-01-02'', ''2024-01-03''], [''2024-01-05'']]
   \<and> spec_longest_streak h_scenario = 3
   \<and> calculateLongestStreak h_scenario = 3"
proof -
  have a: "filter (isDateWithinRange h_scenario) (elements (completionDates h_scenario)) \<noteq> []"
    by code_simp
  have b: "spec_runs (sort (filter (isDateWithinRange h_scenario) (elements (completionDates h_scenario))))
       = [[''2024-01-01'', ''2024-01-02'', ''2024-01-03''], [''2024-01-05'']]"
    by code_simp
  have c: "spec_longest_streak h_scenario = 3" by code_simp
  show ?thesis using C8_longest_streak_runs[of h_scenario] a b c by simp
qed

subsection \<open>The current streak\<close>

lemma loop_invalid:
  "\<not> valid_time t \<Longrightarrow> calculateCurrentStreak_loop tz h t s = Some (Inl RangeError)"
  by (subst calculateCurrentStreak_loop.simps) simp

lemma loop_step:
  "valid_time t \<Longrightarrow> streak_day h t \<Longrightarrow>
     calculateCurrentStreak_loop tz h t s
       = calculateCurrentStreak_loop tz h (setDate_previous tz t) (s + 1)"
  by (subst calculateCurrentStreak_loop.simps) (simp add: streak_day_def Let_def)

lemma loop_stop:
  "valid_time t \<Longrightarrow> \<not> streak_day h t \<Longrightarrow>
     calculateCurrentStreak_loop tz h t s = Some (Inr s)"
  by (subst calculateCurrentStreak_loop.simps) (auto simp: streak_day_def Let_def)



lemma div_MS_step: "(t - MS_PER_DAY) div MS_PER_DAY = t div MS_PER_DAY - 1"
proof -
  have "(t + (- 1) * MS_PER_DAY) div MS_PER_DAY = - 1 + t div MS_PER_DAY"
    using MS_PER_DAY_pos by (intro div_mult_self1) simp
  then show ?thesis by simp
qed


lemma time_ge_day: "(t div MS_PER_DAY) * MS_PER_DAY \<le> t"
proof -
  have "t = (t div MS_PER_DAY) * MS_PER_DAY + t mod MS_PER_DAY" by simp
  moreover have "0 \<le> t mod MS_PER_DAY" using MS_PER_DAY_pos by simp
  ultimately show ?thesis by linarith
qed

lemma valid_time_step:
  assumes "valid_time t" "- 719528 \<le> t div MS_PER_DAY"
  shows "valid_time (t - MS_PER_DAY)"
proof -
  have "- 719528 * MS_PER_DAY \<le> (t div MS_PER_DAY) * MS_PER_DAY"
    using assms(2) MS_PER_DAY_pos by (intro mult_right_mono) simp_all
  with time_ge_day[of t] have "- 719528 * MS_PER_DAY \<le> t" by linarith
  then show ?thesis using assms(1) by (simp add: valid_time_def MS_PER_DAY_def)
qed

text \<open>
  The walk when every step from a counted day is 24 hours, which is so in a time zone whose
  offset does not change over the days walked.
\<close>

lemma loop_result:
  assumes "valid_time t"
    and "\<And>t'. streak_day h t' \<Longrightarrow> setDate_previous tz t' = t' - MS_PER_DAY"
    and "\<And>t'. t' \<le> t \<Longrightarrow> streak_day h t' \<Longrightarrow> - 719528 \<le> t' div MS_PER_DAY"
  shows "\<exists>k. calculateCurrentStreak_loop tz h t s = Some (Inr (s + k))
           \<and> (\<forall>i<k. streak_day h (t - int i * MS_PER_DAY))
           \<and> \<not> streak_day h (t - int k * MS_PER_DAY)"
  using assms(1,3)
proof (induction n \<equiv> "nat (t div MS_PER_DAY + 719529)" arbitrary: t s)
  case 0
  then have "\<not> - 719528 \<le> t div MS_PER_DAY" by simp
  with 0(3)[of t] have n: "\<not> streak_day h t" by auto
  show ?case
    by (rule exI[of _ 0]) (simp add: loop_stop[OF 0(2) n] n)
next
  case (Suc n)
  show ?case
  proof (cases "streak_day h t")
    case False
    show ?thesis
      by (rule exI[of _ 0]) (simp add: loop_stop[OF Suc(3) False] False)
  next
    case True
    from Suc(4)[OF _ True] have lo: "- 719528 \<le> t div MS_PER_DAY" by simp
    have v: "valid_time (t - MS_PER_DAY)" by (rule valid_time_step[OF Suc(3) lo])
    have n: "n = nat ((t - MS_PER_DAY) div MS_PER_DAY + 719529)"
      using Suc(2) by (simp add: div_MS_step)
    have b: "\<And>t'. t' \<le> t - MS_PER_DAY \<Longrightarrow> streak_day h t' \<Longrightarrow> - 719528 \<le> t' div MS_PER_DAY"
      using Suc(4) MS_PER_DAY_pos by simp
    from Suc(1)[OF n v b, of "s + 1"] obtain k where
      k: "calculateCurrentStreak_loop tz h (t - MS_PER_DAY) (s + 1) = Some (Inr (s + 1 + k))"
        "\<forall>i<k. streak_day h (t - MS_PER_DAY - int i * MS_PER_DAY)"
        "\<not> streak_day h (t - MS_PER_DAY - int k * MS_PER_DAY)"
      by blast
    have e: "t - MS_PER_DAY - int i * MS_PER_DAY = t - int (Suc i) * MS_PER_DAY" for i
      by (simp add: algebra_simps)
    have "\<forall>i<Suc k. streak_day h (t - int i * MS_PER_DAY)"
    proof (intro allI impI)
      fix i assume "i < Suc k"
      show "streak_day h (t - int i * MS_PER_DAY)"
      proof (cases i)
        case 0
        with True show ?thesis by simp
      next
        case (Suc j)
        with \<open>i < Suc k\<close> k(2) have "streak_day h (t - MS_PER_DAY - int j * MS_PER_DAY)" by simp
        then show ?thesis unfolding e Suc .
      qed
    qed
    moreover have "\<not> streak_day h (t - int (Suc k) * MS_PER_DAY)" using k(3) unfolding e .
    moreover have "calculateCurrentStreak_loop tz h t s = Some (Inr (s + Suc k))"
      using loop_step[OF Suc(3) True, of tz s] k(1) by (simp add: assms(2)[OF True])
    ultimately show ?thesis by blast
  qed
qed

lemma canonical_day_lower:
  assumes "getDateFromString s = Some t" shows "- 719528 \<le> t div MS_PER_DAY"
proof -
  from assms obtain c where c: "valid_civil c" "year_4digit c" "t = days_from_civil c * MS_PER_DAY"
    by (rule getDateFromString_SomeD)
  obtain y m d where cc: "c = (y, m, d)" by (cases c)
  have "0 \<le> y" using c(2) by (simp add: year_4digit_def cc)
  then have "0 \<le> days_before_year y"
    using days_before_year_mono[of 0 y] by (simp add: days_before_year_0)
  moreover have "0 \<le> days_before_month y m + (d - 1)"
    using yday_range(1)[of y m d] c(1) by (simp add: cc)
  ultimately have "- 719528 \<le> days_from_civil c" by (simp add: days_from_civil_def cc)
  then show ?thesis using MS_PER_DAY_pos by (simp add: c(3))
qed

lemma streak_day_after_start:
  assumes "getDateFromString (startDate h) = Some t0" "streak_day h t"
  shows "- 719528 \<le> t div MS_PER_DAY"
proof -
  from assms(2) have "startDate h \<le> getDateString t"
    by (simp add: streak_day_def isDateWithinRange_def)
  then have "\<not> getDateString t < startDate h" by (rule leD)
  with getDateString_before[OF assms(1), of t] have "\<not> t div MS_PER_DAY < t0 div MS_PER_DAY"
    by blast
  then have "t0 div MS_PER_DAY \<le> t div MS_PER_DAY" by (rule leI)
  with canonical_day_lower[OF assms(1)] show ?thesis by (rule order_trans)
qed

text \<open>
  The walk that the loop makes.  In a time zone where every step from a counted day is
  24 hours, and for a habit with a canonical start date, \<open>calculateCurrentStreak\<close> returns
  the number \<open>k\<close> such that the \<open>k\<close> days ending today are in range and completed and the day
  before them is not.  In every time zone the result is 0 when today is not completed or not
  in range.  For the habit from 2024-01-01 to 2024-01-10 with the completions 2024-01-01,
  2024-01-02 and 2024-01-03 the result is 3 on 2024-01-03, when the three steps are 24 hours,
  as they are in UTC and in America/New_York.
\<close>

lemma current_streak_walk:
  assumes "valid_time now" "canonical (startDate h)"
    and "\<And>t. streak_day h t \<Longrightarrow> setDate_previous tz t = t - MS_PER_DAY"
  shows "\<exists>k. calculateCurrentStreak tz now h = Some (Inr k)
         \<and> (\<forall>i<k. isDateWithinRange h (getDateString (now - int i * MS_PER_DAY))
                 \<and> isHabitCompletedOnDate (Some h) (getDateString (now - int i * MS_PER_DAY)))
         \<and> \<not> (isDateWithinRange h (getDateString (now - int k * MS_PER_DAY))
               \<and> isHabitCompletedOnDate (Some h) (getDateString (now - int k * MS_PER_DAY)))"
proof -
  from assms(2) obtain t0 where t0: "getDateFromString (startDate h) = Some t0"
    by (auto simp: canonical_def)
  from loop_result[OF assms(1) assms(3) streak_day_after_start[OF t0], where s = 0]
  show ?thesis by (simp add: calculateCurrentStreak_def streak_day_def)
qed

lemma current_streak_zero:
  assumes "valid_time now"
    and "\<not> isHabitCompletedOnDate (Some h) (getTodayDateString now)
          \<or> \<not> isDateWithinRange h (getTodayDateString now)"
  shows "calculateCurrentStreak tz now h = Some (Inr 0)"
proof -
  from assms(2) have "\<not> streak_day h now" by (auto simp: streak_day_def getTodayDateString_def)
  from loop_stop[OF assms(1) this] show ?thesis by (simp add: calculateCurrentStreak_def)
qed

lemma current_streak_three:
  assumes "setDate_previous tz 1704283200000 = 1704196800000"
    and "setDate_previous tz 1704196800000 = 1704110400000"
    and "setDate_previous tz 1704110400000 = 1704024000000"
  shows "getTodayDateString 1704283200000 = ''2024-01-03''"
    and "calculateCurrentStreak tz 1704283200000 h_three = Some (Inr 3)"
proof -
  show "getTodayDateString 1704283200000 = ''2024-01-03''" by code_simp
  have v: "valid_time 1704283200000" "valid_time 1704196800000" "valid_time 1704110400000"
    "valid_time 1704024000000" by code_simp+
  have d: "streak_day h_three 1704283200000" "streak_day h_three 1704196800000"
    "streak_day h_three 1704110400000" "\<not> streak_day h_three 1704024000000" by code_simp+
  show "calculateCurrentStreak tz 1704283200000 h_three = Some (Inr 3)"
    unfolding calculateCurrentStreak_def
    by (simp add: loop_step[OF v(1) d(1)] loop_step[OF v(2) d(2)] loop_step[OF v(3) d(3)]
        loop_stop[OF v(4) d(4)] assms)
qed

lemma current_streak_three_zones:
  "calculateCurrentStreak utc_zone 1704283200000 h_three = Some (Inr 3)"
  "calculateCurrentStreak new_york_2024 1704283200000 h_three = Some (Inr 3)"
  by code_simp+

text \<open>
  C2.  The current streak is meant to be the number of consecutive completed days in range
  that end today, found by walking back one day at a time.  The loop steps one day of local
  time and reads the date in UTC.  In America/New_York on 2024-03-10, the day daylight saving
  starts, the step from 23:30 UTC is 23 hours and lands on the same UTC day: with the single
  completion 2024-03-10 that day is counted twice and the current streak is 2, where the
  walk over the days gives 1 (2024-03-09 is not completed), as in a zone without the change.
\<close>

theorem C2_current_streak_new_york:
  "getTodayDateString 1710113400000 = ''2024-03-10''
   \<and> isHabitCompletedOnDate (Some h_march) ''2024-03-10''
   \<and> \<not> isHabitCompletedOnDate (Some h_march) ''2024-03-09''
   \<and> setDate_previous new_york_2024 1710113400000 = 1710113400000 - 82800000
   \<and> getDateString (setDate_previous new_york_2024 1710113400000) = ''2024-03-10''
   \<and> calculateCurrentStreak new_york_2024 1710113400000 h_march = Some (Inr 2)
   \<and> calculateCurrentStreak utc_zone 1710113400000 h_march = Some (Inr 1)"
  by code_simp

theorem C2_current_streak_new_york_witness:
  "calculateCurrentStreak new_york_2024 1710113400000 h_march = Some (Inr 2)
   \<and> calculateCurrentStreak new_york_2024 1710113400000 h_march
       \<noteq> calculateCurrentStreak utc_zone 1710113400000 h_march"
  using C2_current_streak_new_york by simp

subsection \<open>Longest streak against current streak\<close>










text \<open>
  The condition on the steps cannot be dropped either: in America/New_York the step from
  00:30 UTC on 2024-11-04 is 25 hours, over the end of daylight saving, and the loop reads
  2024-11-04 and then 2024-11-02.  With these two completions the current streak is 2 and the
  longest streak is 1.
\<close>

lemma new_york_november_streaks:
  "getDateString 1730680200000 = ''2024-11-04''
   \<and> getDateString (setDate_previous new_york_2024 1730680200000) = ''2024-11-02''
   \<and> calculateCurrentStreak new_york_2024 1730680200000 h_november = Some (Inr 2)
   \<and> calculateLongestStreak h_november = 1"
  by code_simp

subsection \<open>Toggling twice\<close>

lemma loop_cong_Some:
  assumes "calculateCurrentStreak_loop tz h t s = Some r"
    and "\<And>t. streak_day h' t = streak_day h t"
  shows "calculateCurrentStreak_loop tz h' t s = Some r"
proof -
  have "\<forall>h'. (\<forall>t. streak_day h' t = streak_day h t) \<longrightarrow>
      calculateCurrentStreak_loop tz h' t s = Some r"
    using assms(1)
  proof (induction rule: calculateCurrentStreak_loop.raw_induct)
    case (1 loop tz habit currentDate streak r)
    show ?case
    proof (intro allI impI)
      fix h' assume eq: "\<forall>t. streak_day h' t = streak_day habit t"
      show "calculateCurrentStreak_loop tz h' currentDate streak = Some r"
      proof (cases "valid_time currentDate")
        case False
        with 1(2) show ?thesis by (simp add: loop_invalid)
      next
        case v: True
        show ?thesis
        proof (cases "streak_day habit currentDate")
          case False
          then have n': "\<not> streak_day h' currentDate" by (simp add: eq)
          from 1(2) v False have "r = Inr streak"
            by (auto simp: streak_day_def Let_def split: if_splits)
          then show ?thesis by (simp add: loop_stop[OF v n'])
        next
          case True
          then have d': "streak_day h' currentDate" by (simp add: eq)
          from 1(2) v True have "loop tz habit (setDate_previous tz currentDate) (streak + 1) = Some r"
            by (simp add: streak_day_def Let_def)
          moreover from 1(3) have
            "calculateCurrentStreak_loop tz habit (setDate_previous tz currentDate) (streak + 1) = Some r"
            by (simp add: loop_step[OF v True])
          ultimately have "\<forall>h'. (\<forall>t. streak_day h' t = streak_day habit t) \<longrightarrow>
              calculateCurrentStreak_loop tz h' (setDate_previous tz currentDate) (streak + 1) = Some r"
            by (rule 1(1))
          with eq show ?thesis by (simp add: loop_step[OF v d'])
        qed
      qed
    qed
  qed (fact assms(1))
  with assms(2) show ?thesis by blast
qed

lemma loop_cong:
  assumes "\<And>t. streak_day h' t = streak_day h t"
  shows "calculateCurrentStreak_loop tz h' t s = calculateCurrentStreak_loop tz h t s"
proof (cases "calculateCurrentStreak_loop tz h t s")
  case (Some r)
  from loop_cong_Some[OF Some assms] Some show ?thesis by simp
next
  case None
  show ?thesis
  proof (cases "calculateCurrentStreak_loop tz h' t s")
    case (Some r)
    from loop_cong_Some[OF Some assms[symmetric]] None show ?thesis by simp
  qed (simp add: None)
qed

text \<open>The statistics depend on the range and on the multiset of completion dates only.\<close>

lemma statistics_cong:
  assumes "startDate h' = startDate h" "endDate h' = endDate h"
    and "mset (elements (completionDates h')) = mset (elements (completionDates h))"
  shows "isHabitCompletedOnDate (Some h') d = isHabitCompletedOnDate (Some h) d"
    and "calculateCurrentStreak tz now h' = calculateCurrentStreak tz now h"
    and "calculateLongestStreak h' = calculateLongestStreak h"
    and "calculateTotalCompleted h' = calculateTotalCompleted h"
    and "calculateCompletionPercentage h' = calculateCompletionPercentage h"
proof -
  have r: "isDateWithinRange h' = isDateWithinRange h"
    by (rule ext) (simp add: isDateWithinRange_def assms)
  have s: "set (elements (completionDates h')) = set (elements (completionDates h))"
    by (rule mset_eq_setD[OF assms(3)])
  show c: "isHabitCompletedOnDate (Some h') d = isHabitCompletedOnDate (Some h) d" for d
    by (simp add: isHabitCompletedOnDate_elements s)
  have "streak_day h' t = streak_day h t" for t
    by (simp add: streak_day_def r c)
  then show "calculateCurrentStreak tz now h' = calculateCurrentStreak tz now h"
    unfolding calculateCurrentStreak_def by (rule loop_cong)
  have m: "mset (filter (isDateWithinRange h) (elements (completionDates h')))
      = mset (filter (isDateWithinRange h) (elements (completionDates h)))"
    by (simp add: assms(3))
  have "sort (filter (isDateWithinRange h) (elements (completionDates h')))
      = sort (filter (isDateWithinRange h) (elements (completionDates h)))"
    by (rule properties_for_sort) (simp_all add: assms(3))
  then show "calculateLongestStreak h' = calculateLongestStreak h"
    by (simp add: calculateLongestStreak_alt r)
  have "length (filter (isDateWithinRange h) (elements (completionDates h')))
      = length (filter (isDateWithinRange h) (elements (completionDates h)))"
    using m by (metis size_mset)
  then show t: "calculateTotalCompleted h' = calculateTotalCompleted h"
    by (simp add: calculateTotalCompleted_elements r)
  show "calculateCompletionPercentage h' = calculateCompletionPercentage h"
    by (simp add: calculateCompletionPercentage_def assms(1,2) t Let_def split: option.splits)
qed

lemma toggle_completion_fields [simp]:
  "name (toggle_completion d h) = name h"
  "startDate (toggle_completion d h) = startDate h"
  "endDate (toggle_completion d h) = endDate h"
  "createdAt (toggle_completion d h) = createdAt h"
  by (simp_all add: toggle_completion_def Let_def)

lemma elements_toggle_completion:
  "elements (completionDates (toggle_completion d h))
     = (let ds = elements (completionDates h)
        in if d \<in> set ds then remove1 d ds else ds @ [d])"
proof (cases "completionDates h")
  case (Dates ds)
  then show ?thesis by (simp add: toggle_completion_Dates)
qed (simp_all add: toggle_completion_not_array)

lemma toggle_completion_twice:
  assumes "count_list (elements (completionDates h)) d \<le> 1"
  shows "mset (elements (completionDates (toggle_completion d (toggle_completion d h))))
     = mset (elements (completionDates h))"
proof (cases "d \<in> set (elements (completionDates h))")
  case True
  then have "count_list (remove1 d (elements (completionDates h))) d = 0"
    using assms by (simp add: count_list_remove1)
  then have "d \<notin> set (remove1 d (elements (completionDates h)))"
    by (metis count_list_0_iff)
  then show ?thesis using True by (simp add: elements_toggle_completion Let_def)
next
  case False
  then show ?thesis by (simp add: elements_toggle_completion Let_def remove1_append)
qed

lemma update_first_twice:
  assumes "\<And>x. P x \<Longrightarrow> P (f x)"
  shows "update_first P f (update_first P f xs) = update_first P (f \<circ> f) xs"
  using assms by (induction xs) auto

lemma map_update_first:
  assumes "\<And>x. List.find P xs = Some x \<Longrightarrow> F (g x) = F x"
  shows "map F (update_first P g xs) = map F xs"
  using assms by (induction xs) auto

lemma toggleHabitCompletion_twice:
  "toggleHabitCompletion habitId dateStr (toggleHabitCompletion habitId dateStr habits)
     = update_first (\<lambda>h. id' h = habitId)
         (toggle_completion dateStr \<circ> toggle_completion dateStr) habits"
proof (cases "List.find (\<lambda>h. id' h = habitId) habits")
  case None
  then have "update_first (\<lambda>h. id' h = habitId) g habits = habits" for g
    by (induction habits) (auto split: if_splits)
  with None show ?thesis by (simp add: toggleHabitCompletion_def)
next
  case (Some h)
  have "List.find (\<lambda>h. id' h = habitId)
      (update_first (\<lambda>h. id' h = habitId) (toggle_completion dateStr) habits)
      = Some (toggle_completion dateStr h)"
    by (simp add: find_update_first Some)
  then show ?thesis
    by (simp add: toggleHabitCompletion_def Some update_first_twice)
qed

text \<open>
  C4, as amended.  When the date occurs at most once in the completion dates of the habit
  with the given id, toggling the date twice restores the membership of every date in the
  completion set and leaves the current streak, the longest streak, the total and the
  completion percentage of every stored habit as they were; the other fields are untouched.
\<close>

theorem C4_toggle_twice_restores:
  assumes "\<forall>h. List.find (\<lambda>h. id' h = habitId) habits = Some h \<longrightarrow>
      count_list (elements (completionDates h)) dateStr \<le> 1"
  shows "map (\<lambda>h. (id' h, name h, startDate h, endDate h, createdAt h,
                  isHabitCompletedOnDate (Some h) d,
                  calculateCurrentStreak tz now h, calculateLongestStreak h,
                  calculateTotalCompleted h, calculateCompletionPercentage h))
           (toggleHabitCompletion habitId dateStr (toggleHabitCompletion habitId dateStr habits))
       = map (\<lambda>h. (id' h, name h, startDate h, endDate h, createdAt h,
                  isHabitCompletedOnDate (Some h) d,
                  calculateCurrentStreak tz now h, calculateLongestStreak h,
                  calculateTotalCompleted h, calculateCompletionPercentage h))
           habits"
  unfolding toggleHabitCompletion_twice
proof (rule map_update_first)
  fix h assume "List.find (\<lambda>h. id' h = habitId) habits = Some h"
  with assms have c: "count_list (elements (completionDates h)) dateStr \<le> 1" by blast
  let ?h' = "(toggle_completion dateStr \<circ> toggle_completion dateStr) h"
  have m: "mset (elements (completionDates ?h')) = mset (elements (completionDates h))"
    using toggle_completion_twice[OF c] by simp
  have f: "startDate ?h' = startDate h" "endDate ?h' = endDate h" by simp_all
  note st = statistics_cong[OF f m]
  show "(id' ?h', name ?h', startDate ?h', endDate ?h', createdAt ?h',
          isHabitCompletedOnDate (Some ?h') d,
          calculateCurrentStreak tz now ?h', calculateLongestStreak ?h',
          calculateTotalCompleted ?h', calculateCompletionPercentage ?h')
      = (id' h, name h, startDate h, endDate h, createdAt h,
          isHabitCompletedOnDate (Some h) d,
          calculateCurrentStreak tz now h, calculateLongestStreak h,
          calculateTotalCompleted h, calculateCompletionPercentage h)"
    unfolding st by simp
qed

theorem C4_toggle_twice_restores_witness:
  "List.find (\<lambda>h. id' h = ''1704067200000'') [h_scenario] = Some h_scenario
   \<and> count_list (elements (completionDates h_scenario)) ''2024-01-02'' \<le> 1
   \<and> toggleHabitCompletion ''1704067200000'' ''2024-01-02''
        (toggleHabitCompletion ''1704067200000'' ''2024-01-02'' [h_scenario])
      = [h_scenario\<lparr>completionDates :=
            Dates [''2024-01-01'', ''2024-01-03'', ''2024-01-05'', ''2024-01-02'']\<rparr>]
   \<and> calculateLongestStreak (h_scenario\<lparr>completionDates :=
            Dates [''2024-01-01'', ''2024-01-03'', ''2024-01-05'', ''2024-01-02'']\<rparr>)
      = calculateLongestStreak h_scenario
   \<and> isHabitCompletedOnDate (Some (h_scenario\<lparr>completionDates :=
            Dates [''2024-01-01'', ''2024-01-03'', ''2024-01-05'', ''2024-01-02'']\<rparr>)) ''2024-01-02''
      = isHabitCompletedOnDate (Some h_scenario) ''2024-01-02''"
proof -
  have f: "List.find (\<lambda>h. id' h = ''1704067200000'') [h_scenario] = Some h_scenario"
    by (simp add: h_scenario_def)
  have n: "count_list (elements (completionDates h_scenario)) ''2024-01-02'' \<le> 1"
    by (simp add: h_scenario_def)
  from f n have a: "\<forall>h. List.find (\<lambda>h. id' h = ''1704067200000'') [h_scenario] = Some h \<longrightarrow>
      count_list (elements (completionDates h)) ''2024-01-02'' \<le> 1"
    by simp
  have b: "toggleHabitCompletion ''1704067200000'' ''2024-01-02''
        (toggleHabitCompletion ''1704067200000'' ''2024-01-02'' [h_scenario])
      = [h_scenario\<lparr>completionDates :=
            Dates [''2024-01-01'', ''2024-01-03'', ''2024-01-05'', ''2024-01-02'']\<rparr>]"
    by (simp add: toggleHabitCompletion_def toggle_completion_Dates h_scenario_def)
  show ?thesis
    using C4_toggle_twice_restores[OF a, where d = "''2024-01-02''" and now = 1704283200000
        and tz = utc_zone] f n
    unfolding b by simp
qed

text \<open>
  C4 as stated fails when the date is repeated in the array: each toggle removes one
  occurrence.  With the completions 2024-01-01, 2024-01-02, 2024-01-02 and 2024-01-03, two
  toggles of 2024-01-02 leave 2024-01-01 and 2024-01-03: the date was completed before and is
  not completed afterwards, and the total goes from 4 to 2.
\<close>

theorem C4_duplicate_counterexample:
  "toggleHabitCompletion ''1704067200000'' ''2024-01-02''
        (toggleHabitCompletion ''1704067200000'' ''2024-01-02'' [h_duplicate])
      = [h_duplicate\<lparr>completionDates := Dates [''2024-01-01'', ''2024-01-03'']\<rparr>]
   \<and> isHabitCompletedOnDate (Some h_duplicate) ''2024-01-02''
   \<and> \<not> isHabitCompletedOnDate
          (Some (h_duplicate\<lparr>completionDates := Dates [''2024-01-01'', ''2024-01-03'']\<rparr>))
          ''2024-01-02''
   \<and> calculateTotalCompleted h_duplicate = 4
   \<and> calculateTotalCompleted
        (h_duplicate\<lparr>completionDates := Dates [''2024-01-01'', ''2024-01-03'']\<rparr>) = 2"
proof -
  have a: "toggleHabitCompletion ''1704067200000'' ''2024-01-02''
        (toggleHabitCompletion ''1704067200000'' ''2024-01-02'' [h_duplicate])
      = [h_duplicate\<lparr>completionDates := Dates [''2024-01-01'', ''2024-01-03'']\<rparr>]"
    by (simp add: toggleHabitCompletion_def toggle_completion_Dates h_duplicate_def)
  have b: "isHabitCompletedOnDate (Some h_duplicate) ''2024-01-02''" by code_simp
  have c: "\<not> isHabitCompletedOnDate
          (Some (h_duplicate\<lparr>completionDates := Dates [''2024-01-01'', ''2024-01-03'']\<rparr>))
          ''2024-01-02''" by code_simp
  have d: "calculateTotalCompleted h_duplicate = 4" by code_simp
  have e: "calculateTotalCompleted
        (h_duplicate\<lparr>completionDates := Dates [''2024-01-01'', ''2024-01-03'']\<rparr>) = 2"
    by code_simp
  show ?thesis using a b c d e by simp
qed

end
